theory Spec2Isabelle
  imports Main
begin

section \<open>Python strings and characters\<close>

text \<open>
  The KeyValues lexer works on a Python \<open>str\<close>. The entity lump hands it text decoded as
  latin-1, so every character is a code point in 0..255 and is modelled by \<^typ>\<open>char\<close>.
  A Python one-character string (or the empty string that \<open>symbol\<close> returns at the end of
  the buffer) is a \<^typ>\<open>string\<close> of length at most one.
\<close>

abbreviation NL :: char where "NL \<equiv> CHR 0x0A"
abbreviation CR :: char where "CR \<equiv> CHR 0x0D"
abbreviation TAB :: char where "TAB \<equiv> CHR 0x09"
abbreviation SQUOTE :: char where "SQUOTE \<equiv> CHR 0x27"
abbreviation DQUOTE :: char where "DQUOTE \<equiv> CHR 0x22"
abbreviation BACKSLASH :: char where "BACKSLASH \<equiv> CHR 0x5C"

text \<open>Python's \<open>a in b\<close> on strings: \<open>a\<close> occurs in \<open>b\<close> as a contiguous substring.\<close>

fun str_in :: "string \<Rightarrow> string \<Rightarrow> bool" where
  "str_in s [] = (s = [])"
| "str_in s (c # t) = (take (length s) (c # t) = s \<or> str_in s t)"

text \<open>
  \<open>str.isprintable\<close> and \<open>str.isspace\<close> of the Python library, on the code points
  0..255: the non-printable ones are the control characters, the no-break space and the
  soft hyphen; the empty string is printable and is not whitespace.
\<close>

definition printable_char :: "char \<Rightarrow> bool" where
  "printable_char c =
     (let n = (of_char c :: nat)
      in (0x20 \<le> n \<and> n \<le> 0x7E) \<or> (0xA1 \<le> n \<and> n \<noteq> 0xAD))"

definition space_char :: "char \<Rightarrow> bool" where
  "space_char c =
     (let n = (of_char c :: nat)
      in (0x09 \<le> n \<and> n \<le> 0x0D) \<or> (0x1C \<le> n \<and> n \<le> 0x20) \<or> n = 0x85 \<or> n = 0xA0)"

definition isprintable :: "string \<Rightarrow> bool" where
  "isprintable s = list_all printable_char s"

definition isspace :: "string \<Rightarrow> bool" where
  "isspace s = (s \<noteq> [] \<and> list_all space_char s)"

text \<open>\<open>str.strip()\<close>: whitespace removed at both ends.\<close>

definition strip :: "string \<Rightarrow> string" where
  "strip s = rev (dropWhile space_char (rev (dropWhile space_char s)))"

text \<open>
  A Python dict keeps its keys in insertion order; \<open>d[k] = v\<close> replaces the value of a key
  the dict has, in place, and appends a new key at the end.
\<close>

fun py_setitem :: "('k \<times> 'v) list \<Rightarrow> 'k \<Rightarrow> 'v \<Rightarrow> ('k \<times> 'v) list" where
  "py_setitem [] k v = [(k, v)]"
| "py_setitem ((k', v') # d) k v = (if k' = k then (k, v) # d else (k', v') # py_setitem d k v)"

section \<open>The KeyValues lexer (library/utils/kv_parser.py)\<close>

datatype VKVToken =
  STRING | NUMERIC | IDENTIFIER | COMMENT | LPAREN | RPAREN
  | LBRACKET | RBRACKET | LBRACE | RBRACE | NEWLINE | EOF

text \<open>A token is the pair the generator yields: the kind and the text (\<open>None\<close> for EOF).\<close>

type_synonym token = "VKVToken \<times> string option"

text \<open>
  Python's \<open>warnings.warn\<close> prints and goes on; the messages emitted so far are kept in
  a log, one for the warnings of the lexer (\<open>emitted\<close>) and one for those of the parser
  (\<open>p_warnings\<close>). Each constructor carries the values the message is formatted from.
\<close>

datatype warning =
  ExpectedTerminator string string nat nat
  | UnknownSymbol string nat nat
  | RecoverUnexpected token VKVToken nat nat

datatype error =
  FGDLexerException string nat nat
  | FGDParserException token "VKVToken option"
  | StopIteration
  | IndexError
  | AttributeError
  | TypeError
  | AssertionError
  | StructError
  | BufferError
  | FileNotFoundError
  | KeyError
  | ExternalError

text \<open>
  The lexer object. The pair \<open>(buffer, _offset)\<close> is kept as the unread suffix
  \<open>buffer[_offset:]\<close>, which the source calls \<open>leftover\<close>; \<open>_offset < len(buffer)\<close> is
  \<open>leftover \<noteq> []\<close>.
\<close>

record lexer =
  leftover :: string
  buffer_name :: string
  line :: nat
  column :: nat
  emitted :: "warning list"

text \<open>\<open>str.replace('\r\n', '\n')\<close>: one pass from the left, matches do not overlap.\<close>

fun replace_crlf :: "string \<Rightarrow> string" where
  "replace_crlf (a # b # t) =
     (if a = CR \<and> b = NL then NL # replace_crlf t else a # replace_crlf (b # t))"
| "replace_crlf t = t"

definition ValveKeyValueLexer_init :: "string \<Rightarrow> string \<Rightarrow> lexer" where
  "ValveKeyValueLexer_init buffer name =
     \<lparr>leftover = replace_crlf buffer, buffer_name = name, line = 1, column = 1, emitted = []\<rparr>"

definition symbol :: "lexer \<Rightarrow> string" where
  "symbol l = take 1 (leftover l)"

definition next_symbol :: "lexer \<Rightarrow> string" where
  "next_symbol l = take 1 (drop 1 (leftover l))"

definition advance_lexer :: "lexer \<Rightarrow> string \<times> lexer" where
  "advance_lexer l =
     (let s = symbol l
      in if s \<noteq> [] then
           (let l1 = (if s = [CR] \<and> next_symbol l = [NL]
                      then l\<lparr>leftover := drop 1 (leftover l)\<rparr> else l);
                l2 = (if s = [NL] \<or> s = [CR]
                      then l1\<lparr>line := line l1 + 1, column := 1\<rparr>
                      else l1\<lparr>column := column l1 + 1\<rparr>)
            in (s, l2\<lparr>leftover := drop 1 (leftover l2)\<rparr>))
         else (s, l))"

definition is_valid_symbol :: "string \<Rightarrow> bool" where
  "is_valid_symbol s =
     ((isprintable s \<or> str_in s [TAB])
      \<and> \<not> str_in s [CHR ''{'', CHR ''}'', CHR ''['', CHR '']'', DQUOTE, SQUOTE, NL, CR])"

definition is_valid_quoted_symbol :: "string \<Rightarrow> bool" where
  "is_valid_quoted_symbol s =
     (is_valid_symbol s
      \<or> str_in s [CHR ''$'', CHR ''%'', CHR ''.'', CHR '','', BACKSLASH, CHR ''/'', CHR ''<'',
                   CHR ''>'', CHR ''='', CHR ''!'', CHR ''['', CHR '']'', CHR ''{'', CHR ''}'',
                   CHR ''?''])"

lemma advance_lexer_length:
  "length (leftover (snd (advance_lexer l))) \<le> length (leftover l)"
  by (simp add: advance_lexer_def Let_def)

lemma advance_lexer_shorter:
  "leftover l \<noteq> [] \<Longrightarrow> length (leftover (snd (advance_lexer l))) < length (leftover l)"
  by (cases "leftover l") (auto simp add: advance_lexer_def symbol_def Let_def)

lemma is_valid_symbol_Nil: "\<not> is_valid_symbol []"
  by (simp add: is_valid_symbol_def)

lemma symbol_Nil_iff: "symbol l = [] \<longleftrightarrow> leftover l = []"
  by (cases "leftover l") (simp_all add: symbol_def)

text \<open>The loop of \<open>read_simple_string\<close>, with the string read so far.\<close>

function read_simple_loop :: "string \<Rightarrow> lexer \<Rightarrow> string \<Rightarrow> string \<times> lexer" where
  "read_simple_loop terminators l string_buffer =
     (let s = symbol l
      in if \<not> is_valid_symbol s \<or> str_in s terminators then (string_buffer, l)
         else (case advance_lexer l of
                 (c, l1) \<Rightarrow> read_simple_loop terminators l1 (string_buffer @ c)))"
  by pat_completeness auto
termination
proof (relation "measure (\<lambda>(t, l, b). length (leftover l))", goal_cases)
  case 1
  show ?case by simp
next
  case (2 terminators l string_buffer s c l1)
  then have "leftover l \<noteq> []"
    using is_valid_symbol_Nil symbol_Nil_iff by metis
  then show ?case
    using advance_lexer_shorter [of l] 2 by (simp add: prod_eq_iff)
qed

declare read_simple_loop.simps [simp del]

definition read_simple_string :: "string \<Rightarrow> lexer \<Rightarrow> string \<times> lexer" where
  "read_simple_string terminators l =
     (case read_simple_loop terminators l [] of (b, l1) \<Rightarrow> (strip b, l1))"

lemma str_in_Nil [simp]: "str_in [] t"
  by (induction t) simp_all

lemma str_in_single [simp]: "str_in [c] t \<longleftrightarrow> c \<in> set t"
  by (induction t) auto

declare str_in.simps [simp del]

lemma read_simple_loop_length:
  "length (leftover (snd (read_simple_loop ts l b))) \<le> length (leftover l)"
proof (induction ts l b rule: read_simple_loop.induct)
  case (1 ts l b)
  show ?case
  proof (cases "\<not> is_valid_symbol (symbol l) \<or> str_in (symbol l) ts")
    case True
    then show ?thesis by (simp add: read_simple_loop.simps [of ts l b] Let_def)
  next
    case False
    obtain c l1 where a: "advance_lexer l = (c, l1)" by (cases "advance_lexer l")
    have "length (leftover (snd (read_simple_loop ts l1 (b @ c)))) \<le> length (leftover l1)"
      using "1.IH" [OF refl _ a [symmetric]] False by simp
    moreover have "length (leftover l1) \<le> length (leftover l)"
      using advance_lexer_length [of l] a by simp
    ultimately show ?thesis
      using False a by (simp add: read_simple_loop.simps [of ts l b] Let_def)
  qed
qed

text \<open>The loop of \<open>read_quoted_string\<close>, with the string read so far.\<close>

function read_quoted_loop :: "string \<Rightarrow> lexer \<Rightarrow> string \<Rightarrow> string \<times> lexer" where
  "read_quoted_loop terminator l string_buffer =
     (let s = symbol l;
          l1 = (if s = [BACKSLASH] \<and> str_in (next_symbol l) [SQUOTE, DQUOTE, NL, TAB, CR]
                then snd (advance_lexer l) else l)
      in if \<not> is_valid_quoted_symbol s \<or> str_in s (terminator @ [NL]) then (string_buffer, l1)
         else (case advance_lexer l1 of
                 (c, l2) \<Rightarrow> read_quoted_loop terminator l2 (string_buffer @ c)))"
  by pat_completeness auto
termination
proof (relation "measure (\<lambda>(t, l, b). length (leftover l))", goal_cases)
  case 1
  show ?case by simp
next
  case (2 terminator l string_buffer s l1 c l2)
  then have ne: "leftover l \<noteq> []"
    using str_in_Nil symbol_Nil_iff by metis
  have "length (leftover l2) < length (leftover l)"
  proof (cases "l1 = l")
    case True
    then show ?thesis
      using advance_lexer_shorter [OF ne] 2 by (simp add: prod_eq_iff)
  next
    case False
    then have "l1 = snd (advance_lexer l)"
      using 2 by (simp split: if_splits)
    then have "length (leftover l1) < length (leftover l)"
      using advance_lexer_shorter [OF ne] by simp
    moreover have "length (leftover l2) \<le> length (leftover l1)"
      using advance_lexer_length [of l1] 2 by (simp add: prod_eq_iff)
    ultimately show ?thesis by simp
  qed
  then show ?case by simp
qed

declare read_quoted_loop.simps [simp del]

definition read_quoted_string :: "lexer \<Rightarrow> string \<times> lexer" where
  "read_quoted_string l =
     (case advance_lexer l of
        (terminator, l1) \<Rightarrow>
          (case read_quoted_loop terminator l1 [] of
             (b, l2) \<Rightarrow>
               (strip b,
                if symbol l2 = terminator then snd (advance_lexer l2)
                else l2\<lparr>emitted := emitted l2 @
                       [ExpectedTerminator terminator (symbol l2) (line l2) (column l2)]\<rparr>)))"

lemma read_quoted_loop_length:
  "length (leftover (snd (read_quoted_loop t l b))) \<le> length (leftover l)"
proof (induction t l b rule: read_quoted_loop.induct)
  case (1 t l b)
  define l1 where "l1 = (if symbol l = [BACKSLASH] \<and> str_in (next_symbol l) [SQUOTE, DQUOTE, NL, TAB, CR]
                then snd (advance_lexer l) else l)"
  have l1: "length (leftover l1) \<le> length (leftover l)"
    using advance_lexer_length [of l] by (simp add: l1_def)
  show ?case
  proof (cases "\<not> is_valid_quoted_symbol (symbol l) \<or> str_in (symbol l) (t @ [NL])")
    case True
    then show ?thesis
      using advance_lexer_length [of l]
      by (simp add: read_quoted_loop.simps [of t l b] Let_def)
  next
    case False
    obtain c l2 where a: "advance_lexer l1 = (c, l2)" by (cases "advance_lexer l1")
    have "length (leftover (snd (read_quoted_loop t l2 (b @ c)))) \<le> length (leftover l2)"
      using "1.IH" [OF refl l1_def _ a [symmetric]] False by simp
    moreover have "length (leftover l2) \<le> length (leftover l1)"
      using advance_lexer_length [of l1] a by simp
    ultimately show ?thesis
      using False a l1 by (simp add: read_quoted_loop.simps [of t l b] Let_def l1_def [symmetric])
  qed
qed

lemma read_quoted_string_shorter:
  assumes "leftover l \<noteq> []"
  shows "length (leftover (snd (read_quoted_string l))) < length (leftover l)"
proof -
  obtain t l1 where a: "advance_lexer l = (t, l1)" by (cases "advance_lexer l")
  obtain b l2 where r: "read_quoted_loop t l1 [] = (b, l2)" by (cases "read_quoted_loop t l1 []")
  have "length (leftover l1) < length (leftover l)"
    using advance_lexer_shorter [OF assms] a by simp
  moreover have "length (leftover l2) \<le> length (leftover l1)"
    using read_quoted_loop_length [of t l1 "[]"] r by simp
  moreover have "length (leftover (snd (advance_lexer l2))) \<le> length (leftover l2)"
    by (rule advance_lexer_length)
  ultimately show ?thesis
    by (simp add: read_quoted_string_def a r)
qed

text \<open>The inner loop of the newline branch: \<open>while self.next_symbol == '\n': self.advance()\<close>.\<close>

function skip_newline_run :: "lexer \<Rightarrow> lexer" where
  "skip_newline_run l =
     (if next_symbol l = [NL] then skip_newline_run (snd (advance_lexer l)) else l)"
  by pat_completeness auto
termination
proof (relation "measure (\<lambda>l. length (leftover l))", goal_cases)
  case 1
  show ?case by simp
next
  case (2 l)
  then have "leftover l \<noteq> []"
    by (auto simp: next_symbol_def)
  then show ?case
    using advance_lexer_shorter [of l] by simp
qed

declare skip_newline_run.simps [simp del]

text \<open>The loop of the comment branch: \<open>while self.symbol != '\n' and self: self.advance()\<close>.\<close>

function skip_comment :: "lexer \<Rightarrow> lexer" where
  "skip_comment l =
     (if symbol l \<noteq> [NL] \<and> leftover l \<noteq> [] then skip_comment (snd (advance_lexer l)) else l)"
  by pat_completeness auto
termination
proof (relation "measure (\<lambda>l. length (leftover l))", goal_cases)
  case 1
  show ?case by simp
next
  case (2 l)
  then show ?case
    using advance_lexer_shorter [of l] by simp
qed

declare skip_comment.simps [simp del]

lemma skip_newline_run_length: "length (leftover (skip_newline_run l)) \<le> length (leftover l)"
proof (induction l rule: skip_newline_run.induct)
  case (1 l)
  show ?case
  proof (cases "next_symbol l = [NL]")
    case True
    then show ?thesis
      using 1 advance_lexer_length [of l] by (simp add: skip_newline_run.simps [of l])
  next
    case False
    then show ?thesis by (simp add: skip_newline_run.simps [of l])
  qed
qed

lemma skip_comment_length: "length (leftover (skip_comment l)) \<le> length (leftover l)"
proof (induction l rule: skip_comment.induct)
  case (1 l)
  show ?case
  proof (cases "symbol l \<noteq> [NL] \<and> leftover l \<noteq> []")
    case True
    then show ?thesis
      using 1 advance_lexer_length [of l] by (simp add: skip_comment.simps [of l])
  next
    case False
    then show ?thesis by (auto simp add: skip_comment.simps [of l])
  qed
qed

lemma read_simple_string_shorter:
  assumes "is_valid_symbol (symbol l)" and "\<not> str_in (symbol l) ts"
  shows "length (leftover (snd (read_simple_string ts l))) < length (leftover l)"
proof -
  obtain c l1 where a: "advance_lexer l = (c, l1)" by (cases "advance_lexer l")
  have "leftover l \<noteq> []"
    using assms(1) is_valid_symbol_Nil symbol_Nil_iff by metis
  then have "length (leftover l1) < length (leftover l)"
    using advance_lexer_shorter [of l] a by simp
  moreover have "length (leftover (snd (read_simple_loop ts l1 ([] @ c)))) \<le> length (leftover l1)"
    by (rule read_simple_loop_length)
  ultimately show ?thesis
    using assms a
    by (simp add: read_simple_string_def read_simple_loop.simps [of ts l "[]"] split_beta)
qed

text \<open>
  The generator \<open>lex\<close>. One call of \<open>lex_step\<close> runs the generator from the head of its
  \<open>while\<close> loop to its next \<open>yield\<close> and returns the token with the lexer as the generator
  leaves it; every \<open>yield\<close> inside the loop resumes at the head of the loop. When the
  loop condition fails the generator yields EOF, and it is exhausted after that.
\<close>

function lex_step :: "lexer \<Rightarrow> error + (token \<times> lexer)" where
  "lex_step l =
     (if leftover l = [] then Inr ((EOF, None), l)
      else if symbol l = [NL] then
        (let l1 = (if next_symbol l = [NL] then skip_newline_run l else l)
         in case advance_lexer l1 of (s, l2) \<Rightarrow> Inr ((NEWLINE, Some s), l2))
      else if isspace (symbol l) then lex_step (snd (advance_lexer l))
      else if symbol l = [CHR ''/''] \<and> next_symbol l = [CHR ''/''] then
        lex_step (skip_comment (snd (advance_lexer (snd (advance_lexer l)))))
      else if symbol l = [CHR ''{''] then
        (case advance_lexer l of (s, l1) \<Rightarrow> Inr ((LBRACE, Some s), l1))
      else if symbol l = [CHR ''}''] then
        (case advance_lexer l of (s, l1) \<Rightarrow> Inr ((RBRACE, Some s), l1))
      else if is_valid_symbol (symbol l) then
        (case read_simple_string [CHR '' '', TAB, NL] l of
           (string, l1) \<Rightarrow> if string \<noteq> [] then Inr ((STRING, Some string), l1) else lex_step l1)
      else if str_in (symbol l) [SQUOTE, DQUOTE] then
        (if str_in (next_symbol l) [SQUOTE, DQUOTE] then
           Inr ((STRING, Some []), snd (advance_lexer (snd (advance_lexer l))))
         else
           (case read_quoted_string l of
              (string, l1) \<Rightarrow> if string \<noteq> [] then Inr ((STRING, Some string), l1) else lex_step l1))
      else if symbol l = [CHR ''[''] then
        (case advance_lexer l of (s, l1) \<Rightarrow> Inr ((LBRACKET, Some s), l1))
      else if symbol l = [CHR '']''] then
        (case advance_lexer l of (s, l1) \<Rightarrow> Inr ((RBRACKET, Some s), l1))
      else if isprintable (symbol l) then
        (case advance_lexer l of
           (s, l1) \<Rightarrow> lex_step (l1\<lparr>emitted := emitted l1 @ [UnknownSymbol s (line l1) (column l1)]\<rparr>))
      else Inl (FGDLexerException (symbol l) (line l) (column l)))"
  by pat_completeness auto
termination
proof (relation "measure (\<lambda>l. length (leftover l))", goal_cases)
  case 1
  show ?case by simp
next
  case (2 l)
  then show ?case
    using advance_lexer_shorter [of l] by simp
next
  case (3 l)
  have "length (leftover (skip_comment (snd (advance_lexer (snd (advance_lexer l))))))
          \<le> length (leftover (snd (advance_lexer (snd (advance_lexer l)))))"
    by (rule skip_comment_length)
  also have "\<dots> \<le> length (leftover (snd (advance_lexer l)))"
    by (rule advance_lexer_length)
  also have "\<dots> < length (leftover l)"
    using 3 advance_lexer_shorter [of l] by simp
  finally show ?case by simp
next
  case (4 l string l1)
  have "\<not> str_in (symbol l) [CHR '' '', TAB, NL]"
  proof
    assume a: "str_in (symbol l) [CHR '' '', TAB, NL]"
    obtain c where c: "symbol l = [c]"
      using 4(1) by (cases "leftover l") (simp_all add: symbol_def)
    then have "c = CHR '' '' \<or> c = TAB \<or> c = NL"
      using a by simp
    then show False
      using c 4(2,3) by (auto simp: isspace_def space_char_def)
  qed
  then have "length (leftover (snd (read_simple_string [CHR '' '', TAB, NL] l))) < length (leftover l)"
    using 4 read_simple_string_shorter by blast
  then show ?case
    using 4 by (simp add: prod_eq_iff)
next
  case (5 l string l1)
  then show ?case
    using read_quoted_string_shorter [of l] by (simp add: prod_eq_iff)
next
  case (6 l s l1)
  then show ?case
    using advance_lexer_shorter [of l] by (simp add: prod_eq_iff)
qed

declare lex_step.simps [simp del]

lemma lex_step_progress:
  "lex_step l = Inr (t, l') \<Longrightarrow>
     length (leftover l') \<le> length (leftover l) \<and>
     (fst t \<noteq> EOF \<longrightarrow> length (leftover l') < length (leftover l)) \<and>
     (fst t = EOF \<longrightarrow> leftover l' = [])"
proof (induction l rule: lex_step.induct)
  case (1 l)
  note step = "1.prems" [unfolded lex_step.simps [of l]]
  show ?case
  proof (cases "leftover l = []")
    case True
    then show ?thesis using step by auto
  next
    case ne: False
    have adv: "length (leftover (snd (advance_lexer l))) < length (leftover l)"
      using advance_lexer_shorter [OF ne] .
    show ?thesis
    proof (cases "symbol l = [NL]")
      case True
      have "length (leftover (snd (advance_lexer (skip_newline_run l)))) < length (leftover l)"
      proof (cases "leftover (skip_newline_run l) = []")
        case True
        then show ?thesis using ne advance_lexer_length [of "skip_newline_run l"] by simp
      next
        case False
        then show ?thesis
          using advance_lexer_shorter [of "skip_newline_run l"] skip_newline_run_length [of l]
          by simp
      qed
      then show ?thesis
        using step ne True adv by (auto simp: Let_def split: if_splits prod.splits)
    next
      case nnl: False
      show ?thesis
      proof (cases "isspace (symbol l)")
        case True
        then have "lex_step (snd (advance_lexer l)) = Inr (t, l')"
          using step ne nnl by simp
        from "1.IH"(1) [OF ne nnl True this] show ?thesis
          using adv ne by auto
      next
        case nsp: False
        show ?thesis
        proof (cases "symbol l = [CHR ''/''] \<and> next_symbol l = [CHR ''/'']")
          case True
          then have "lex_step (skip_comment (snd (advance_lexer (snd (advance_lexer l))))) = Inr (t, l')"
            using step ne nnl nsp by simp
          from "1.IH"(2) [OF ne nnl nsp True this]
          show ?thesis
            using adv skip_comment_length [of "snd (advance_lexer (snd (advance_lexer l)))"]
              advance_lexer_length [of "snd (advance_lexer l)"] by auto
        next
          case ncm: False
          show ?thesis
          proof (cases "symbol l = [CHR ''{''] \<or> symbol l = [CHR ''}'']")
            case True
            then show ?thesis
              using step ne nnl nsp ncm adv by (auto split: prod.splits)
          next
            case nbr: False
            show ?thesis
            proof (cases "is_valid_symbol (symbol l)")
              case True
              obtain str l1 where r: "read_simple_string [CHR '' '', TAB, NL] l = (str, l1)"
                by (cases "read_simple_string [CHR '' '', TAB, NL] l")
              have "\<not> str_in (symbol l) [CHR '' '', TAB, NL]"
              proof
                assume a: "str_in (symbol l) [CHR '' '', TAB, NL]"
                obtain c where c: "symbol l = [c]"
                  using ne by (cases "leftover l") (simp_all add: symbol_def)
                then have "c = CHR '' '' \<or> c = TAB \<or> c = NL"
                  using a by simp
                then show False
                  using c nnl nsp by (auto simp: isspace_def space_char_def)
              qed
              then have sh: "length (leftover l1) < length (leftover l)"
                using read_simple_string_shorter [OF True] r by fastforce
              show ?thesis
              proof (cases "str \<noteq> []")
                case True
                then show ?thesis
                  using step ne nnl nsp ncm nbr \<open>is_valid_symbol (symbol l)\<close> r sh by auto
              next
                case False
                then have "lex_step l1 = Inr (t, l')"
                  using step ne nnl nsp ncm nbr \<open>is_valid_symbol (symbol l)\<close> r by auto
                from "1.IH"(3) [OF ne nnl nsp ncm _ _ \<open>is_valid_symbol (symbol l)\<close> r [symmetric] False this]
                show ?thesis using nbr sh by auto
              qed
            next
              case nvs: False
              show ?thesis
              proof (cases "str_in (symbol l) [SQUOTE, DQUOTE]")
                case True
                show ?thesis
                proof (cases "str_in (next_symbol l) [SQUOTE, DQUOTE]")
                  case nq: True
                  then show ?thesis
                    using step ne nnl nsp ncm nbr nvs True adv
                      advance_lexer_length [of "snd (advance_lexer l)"] by auto
                next
                  case nq: False
                  obtain str l1 where r: "read_quoted_string l = (str, l1)"
                    by (cases "read_quoted_string l")
                  have sh: "length (leftover l1) < length (leftover l)"
                    using read_quoted_string_shorter [OF ne] r by simp
                  show ?thesis
                  proof (cases "str \<noteq> []")
                    case True
                    then show ?thesis
                      using step ne nnl nsp ncm nbr nvs \<open>str_in (symbol l) [SQUOTE, DQUOTE]\<close> nq r sh
                      by auto
                  next
                    case False
                    then have "lex_step l1 = Inr (t, l')"
                      using step ne nnl nsp ncm nbr nvs \<open>str_in (symbol l) [SQUOTE, DQUOTE]\<close> nq r
                      by auto
                    from "1.IH"(4) [OF ne nnl nsp ncm _ _ nvs \<open>str_in (symbol l) [SQUOTE, DQUOTE]\<close> nq
                        r [symmetric] False this]
                    show ?thesis using nbr sh by auto
                  qed
                qed
              next
                case nqu: False
                show ?thesis
                proof (cases "symbol l = [CHR ''[''] \<or> symbol l = [CHR '']'']")
                  case True
                  then show ?thesis
                    using step ne nnl nsp ncm nbr nvs nqu adv by (auto split: prod.splits)
                next
                  case nsq: False
                  show ?thesis
                  proof (cases "isprintable (symbol l)")
                    case True
                    obtain s l1 where a: "advance_lexer l = (s, l1)"
                      by (cases "advance_lexer l")
                    then have "lex_step (l1\<lparr>emitted := emitted l1 @ [UnknownSymbol s (line l1) (column l1)]\<rparr>)
                                 = Inr (t, l')"
                      using step ne nnl nsp ncm nbr nvs nqu nsq True by auto
                    from "1.IH"(5) [OF ne nnl nsp ncm _ _ nvs nqu _ _ True a [symmetric] this]
                    show ?thesis using nbr nsq adv a by auto
                  next
                    case False
                    then show ?thesis
                      using step ne nnl nsp ncm nbr nvs nqu nsq by auto
                  qed
                qed
              qed
            qed
          qed
        qed
      qed
    qed
  qed
qed

section \<open>The KeyValues parser (library/utils/kv_parser.py)\<close>

text \<open>
  A value stored under a key: a nested mapping (a reference to another dict object), a
  scalar (the text of the value token), or the pair of a value and its condition.
\<close>

datatype kv_value =
  Node nat
  | Scalar "string option"
  | Tuple "string option" "string option"

type_synonym dict = "(string option \<times> kv_value) list"

text \<open>
  The parser object. \<open>_tokens\<close> is the generator over \<open>_lexer\<close>: it is the lexer itself
  together with the flag \<open>p_exhausted\<close>, set once EOF has been yielded, after which
  \<open>next\<close> raises StopIteration. The dict objects that the parse creates live in
  \<open>p_nodes\<close>, a store indexed by object number; \<open>self.tree\<close> is object 0, and the
  \<open>node_stack\<close> of \<open>parse\<close> is a list of object numbers, its last element the top.
\<close>

record parser =
  p_lexer :: lexer
  p_exhausted :: bool
  p_last_peek :: "token option"
  p_self_recover :: bool
  p_path :: string
  p_nodes :: "dict list"
  p_warnings :: "warning list"

definition ValveKeyValueParser_init ::
  "(string \<Rightarrow> error + string) \<Rightarrow> string option \<Rightarrow> (string \<times> string) option \<Rightarrow> bool
     \<Rightarrow> error + parser" where
  "ValveKeyValueParser_init read_text path buffer_and_name self_recover =
     (let mk = (\<lambda>lx pth. \<lparr>p_lexer = lx, p_exhausted = False, p_last_peek = None,
                            p_self_recover = self_recover, p_path = pth, p_nodes = [[]],
                            p_warnings = []\<rparr>)
      in case path of
           Some pth \<Rightarrow>
             (case read_text pth of
                Inl e \<Rightarrow> Inl e
              | Inr text \<Rightarrow> Inr (mk (ValveKeyValueLexer_init text pth) pth))
         | None \<Rightarrow>
             (case buffer_and_name of
                Some (buffer, name) \<Rightarrow> Inr (mk (ValveKeyValueLexer_init buffer name) name)
              | None \<Rightarrow> Inl AttributeError))"

text \<open>\<open>next(self._tokens)\<close>.\<close>

definition next_token :: "parser \<Rightarrow> error + (token \<times> parser)" where
  "next_token p =
     (if p_exhausted p then Inl StopIteration
      else case lex_step (p_lexer p) of
             Inl e \<Rightarrow> Inl e
           | Inr (t, l1) \<Rightarrow> Inr (t, p\<lparr>p_lexer := l1, p_exhausted := (fst t = EOF)\<rparr>))"

definition peek :: "parser \<Rightarrow> error + (token \<times> parser)" where
  "peek p =
     (case p_last_peek p of
        None \<Rightarrow>
          (case next_token p of
             Inl e \<Rightarrow> Inl e
           | Inr (t, p1) \<Rightarrow> Inr (t, p1\<lparr>p_last_peek := Some t\<rparr>))
      | Some t \<Rightarrow> Inr (t, p))"

definition advance :: "parser \<Rightarrow> error + (token \<times> parser)" where
  "advance p =
     (case p_last_peek p of
        Some ret \<Rightarrow> Inr (ret, p\<lparr>p_last_peek := None\<rparr>)
      | None \<Rightarrow> next_token p)"

definition match :: "parser \<Rightarrow> VKVToken \<Rightarrow> bool \<Rightarrow> error + (bool \<times> parser)" where
  "match p token_type consume =
     (case peek p of
        Inl e \<Rightarrow> Inl e
      | Inr ((token, value), p1) \<Rightarrow>
          if token = token_type then
            (if consume then
               (case advance p1 of Inl e \<Rightarrow> Inl e | Inr (_, p2) \<Rightarrow> Inr (True, p2))
             else Inr (True, p1))
          else Inr (False, p1))"

text \<open>The number of tokens still to come bounds every loop of the parser.\<close>

definition pm :: "parser \<Rightarrow> nat" where
  "pm p = 3 * length (leftover (p_lexer p)) + (if p_exhausted p then 0 else 2)
          + (if p_last_peek p = None then 0 else 1)"

lemma next_token_pm: "next_token p = Inr (t, p1) \<Longrightarrow> p_last_peek p = None \<Longrightarrow> pm p1 + 2 \<le> pm p"
  using lex_step_progress [of "p_lexer p" t]
  by (auto simp: next_token_def pm_def split: if_splits sum.splits)

lemma peek_pm: "peek p = Inr (t, p1) \<Longrightarrow> pm p1 \<le> pm p"
  using next_token_pm [of p t]
  by (auto simp: peek_def pm_def next_token_def split: option.splits sum.splits if_splits)

lemma advance_pm: "advance p = Inr (t, p1) \<Longrightarrow> pm p1 < pm p"
  using next_token_pm [of p t p1]
  by (auto simp: advance_def pm_def split: option.splits)

lemma match_pm: "match p tt c = Inr (b, p1) \<Longrightarrow> pm p1 \<le> pm p"
  by (auto simp: match_def split: sum.splits prod.splits if_splits
           dest!: peek_pm advance_pm)

lemma match_consume_pm: "match p tt True = Inr (True, p1) \<Longrightarrow> pm p1 < pm p"
  by (auto simp: match_def split: sum.splits prod.splits if_splits
           dest!: peek_pm advance_pm)

function skip_newlines :: "parser \<Rightarrow> error + parser" where
  "skip_newlines p =
     (case match p NEWLINE False of
        Inl e \<Rightarrow> Inl e
      | Inr (m, p1) \<Rightarrow>
          if m then
            (case advance p1 of Inl e \<Rightarrow> Inl e | Inr (_, p2) \<Rightarrow> skip_newlines p2)
          else Inr p1)"
  by pat_completeness auto
termination
proof (relation "measure pm", goal_cases)
  case 1
  show ?case by simp
next
  case (2 p x m p1 y t p2)
  then have "pm p1 \<le> pm p" and "pm p2 < pm p1"
    using match_pm [of p NEWLINE False m p1] advance_pm [of p1 t p2] by simp_all
  then show ?case by simp
qed

declare skip_newlines.simps [simp del]

text \<open>The loop of the recovery branch of \<open>expect\<close>:
  \<open>while not self.match(VKVToken.NEWLINE): self.advance()\<close>.\<close>

function recover_loop :: "parser \<Rightarrow> error + parser" where
  "recover_loop p =
     (case match p NEWLINE False of
        Inl e \<Rightarrow> Inl e
      | Inr (m, p1) \<Rightarrow>
          if \<not> m then
            (case advance p1 of Inl e \<Rightarrow> Inl e | Inr (_, p2) \<Rightarrow> recover_loop p2)
          else Inr p1)"
  by pat_completeness auto
termination
proof (relation "measure pm", goal_cases)
  case 1
  show ?case by simp
next
  case (2 p x m p1 y t p2)
  then have "pm p1 \<le> pm p" and "pm p2 < pm p1"
    using match_pm [of p NEWLINE False m p1] advance_pm [of p1 t p2] by simp_all
  then show ?case by simp
qed

declare recover_loop.simps [simp del]

definition warn_recover :: "parser \<Rightarrow> token \<Rightarrow> VKVToken \<Rightarrow> parser" where
  "warn_recover p t token_type =
     p\<lparr>p_warnings := p_warnings p @
          [RecoverUnexpected t token_type (line (p_lexer p)) (column (p_lexer p))]\<rparr>"

text \<open>\<open>expect\<close> returns the value of the token it consumed, or \<open>None\<close> after a recovery.\<close>

definition expect :: "parser \<Rightarrow> VKVToken \<Rightarrow> error + (string option \<times> parser)" where
  "expect p token_type =
     (case peek p of
        Inl e \<Rightarrow> Inl e
      | Inr ((token, value), p1) \<Rightarrow>
          if token = token_type then
            (case advance p1 of Inl e \<Rightarrow> Inl e | Inr (_, p2) \<Rightarrow> Inr (value, p2))
          else if p_self_recover p1 then
            (case recover_loop (warn_recover p1 (token, value) token_type) of
               Inl e \<Rightarrow> Inl e
             | Inr p2 \<Rightarrow> Inr (None, p2))
          else Inl (FGDParserException (token, value) (Some token_type)))"

text \<open>\<open>node_stack[-1][key] = value\<close>: IndexError on an empty stack.\<close>

definition set_top :: "dict list \<Rightarrow> nat list \<Rightarrow> string option \<Rightarrow> kv_value \<Rightarrow> error + dict list" where
  "set_top nodes node_stack key v =
     (if node_stack = [] then Inl IndexError
      else Inr (nodes[last node_stack := py_setitem (nodes ! last node_stack) key v]))"

text \<open>
  The statement after a key has been read and the newlines after it skipped: a block
  opens, or a value (with an optional condition) is assigned, or neither.
\<close>

definition parse_after_key ::
  "parser \<Rightarrow> nat list \<Rightarrow> string option \<Rightarrow> error + (parser \<times> nat list)" where
  "parse_after_key p node_stack key =
     (case match p LBRACE True of
        Inl e \<Rightarrow> Inl e
      | Inr (m1, p1) \<Rightarrow>
          if m1 then
            (let new_tree_node = length (p_nodes p1)
             in case set_top (p_nodes p1 @ [[]]) node_stack key (Node new_tree_node) of
                  Inl e \<Rightarrow> Inl e
                | Inr nodes \<Rightarrow> Inr (p1\<lparr>p_nodes := nodes\<rparr>, node_stack @ [new_tree_node]))
          else
            (case match p1 STRING False of
               Inl e \<Rightarrow> Inl e
             | Inr (m2, p2) \<Rightarrow>
                 if m2 then
                   (case advance p2 of
                      Inl e \<Rightarrow> Inl e
                    | Inr (value, p3) \<Rightarrow>
                        (case match p3 LBRACKET True of
                           Inl e \<Rightarrow> Inl e
                         | Inr (m3, p4) \<Rightarrow>
                             (case (if m3 then
                                      (case advance p4 of
                                         Inl e \<Rightarrow> Inl e
                                       | Inr (condition, p5) \<Rightarrow>
                                           (case expect p5 RBRACKET of
                                              Inl e \<Rightarrow> Inl e
                                            | Inr (_, p6) \<Rightarrow>
                                                (case set_top (p_nodes p6) node_stack key
                                                        (Tuple (snd value) (snd condition)) of
                                                   Inl e \<Rightarrow> Inl e
                                                 | Inr nodes \<Rightarrow> Inr (p6\<lparr>p_nodes := nodes\<rparr>))))
                                    else
                                      (case set_top (p_nodes p4) node_stack key (Scalar (snd value)) of
                                         Inl e \<Rightarrow> Inl e
                                       | Inr nodes \<Rightarrow> Inr (p4\<lparr>p_nodes := nodes\<rparr>))) of
                                Inl e \<Rightarrow> Inl e
                              | Inr p7 \<Rightarrow>
                                  (case expect p7 NEWLINE of
                                     Inl e \<Rightarrow> Inl e
                                   | Inr (_, p8) \<Rightarrow> Inr (p8, node_stack)))))
                 else Inr (p2, node_stack)))"

text \<open>
  One pass through the body of the \<open>while\<close> loop of \<open>parse\<close>. The flag of the result is
  \<open>True\<close> when the body leaves the loop by \<open>break\<close>.
\<close>

definition parse_body :: "parser \<Rightarrow> nat list \<Rightarrow> error + (bool \<times> parser \<times> nat list)" where
  "parse_body p node_stack =
     (case skip_newlines p of
        Inl e \<Rightarrow> Inl e
      | Inr p1 \<Rightarrow>
          (case match p1 STRING False of
             Inl e \<Rightarrow> Inl e
           | Inr (m1, p2) \<Rightarrow>
               if m1 then
                 (case advance p2 of
                    Inl e \<Rightarrow> Inl e
                  | Inr (key, p3) \<Rightarrow>
                      (case skip_newlines p3 of
                         Inl e \<Rightarrow> Inl e
                       | Inr p4 \<Rightarrow>
                           (case parse_after_key p4 node_stack (snd key) of
                              Inl e \<Rightarrow> Inl e
                            | Inr (p5, st) \<Rightarrow> Inr (False, p5, st))))
               else
                 (case match p2 RBRACE True of
                    Inl e \<Rightarrow> Inl e
                  | Inr (m2, p3) \<Rightarrow>
                      if m2 then
                        (if node_stack = [] then Inl IndexError
                         else Inr (False, p3, butlast node_stack))
                      else
                        (case match p3 EOF False of
                           Inl e \<Rightarrow> Inl e
                         | Inr (m3, p4) \<Rightarrow>
                             if m3 then Inr (True, p4, node_stack)
                             else
                               (case peek p4 of
                                  Inl e \<Rightarrow> Inl e
                                | Inr (t, p5) \<Rightarrow> Inl (FGDParserException t None))))))"

lemma skip_newlines_pm: "skip_newlines p = Inr p1 \<Longrightarrow> pm p1 \<le> pm p"
proof (induction p rule: skip_newlines.induct)
  case (1 p)
  from "1.prems" obtain m q where m: "match p NEWLINE False = Inr (m, q)"
    by (auto simp: skip_newlines.simps [of p] split: sum.splits)
  have q: "pm q \<le> pm p" using match_pm [OF m] .
  show ?case
  proof (cases m)
    case True
    with "1.prems" m obtain t q2 where a: "advance q = Inr (t, q2)" and r: "skip_newlines q2 = Inr p1"
      by (auto simp: skip_newlines.simps [of p] split: sum.splits)
    have "pm p1 \<le> pm q2"
      using "1.IH" [OF m refl True a refl r] .
    then show ?thesis using advance_pm [OF a] q by simp
  next
    case False
    with "1.prems" m show ?thesis using q by (simp add: skip_newlines.simps [of p])
  qed
qed

lemma recover_loop_pm: "recover_loop p = Inr p1 \<Longrightarrow> pm p1 \<le> pm p"
proof (induction p rule: recover_loop.induct)
  case (1 p)
  from "1.prems" obtain m q where m: "match p NEWLINE False = Inr (m, q)"
    by (auto simp: recover_loop.simps [of p] split: sum.splits)
  have q: "pm q \<le> pm p" using match_pm [OF m] .
  show ?case
  proof (cases m)
    case False
    with "1.prems" m obtain t q2 where a: "advance q = Inr (t, q2)" and r: "recover_loop q2 = Inr p1"
      by (auto simp: recover_loop.simps [of p] split: sum.splits)
    have "pm p1 \<le> pm q2"
      using "1.IH" [OF m refl False a refl r] .
    then show ?thesis using advance_pm [OF a] q by simp
  next
    case True
    with "1.prems" m show ?thesis using q by (simp add: recover_loop.simps [of p])
  qed
qed

lemma warn_recover_pm [simp]: "pm (warn_recover p t tt) = pm p"
  by (simp add: warn_recover_def pm_def)

lemma expect_pm: "expect p tt = Inr (v, p1) \<Longrightarrow> pm p1 \<le> pm p"
  by (auto simp: expect_def split: sum.splits prod.splits if_splits
           dest!: peek_pm advance_pm recover_loop_pm)

lemma pm_nodes [simp]: "pm (p\<lparr>p_nodes := n\<rparr>) = pm p"
  by (simp add: pm_def)

lemma parse_after_key_pm: "parse_after_key p st k = Inr (p1, st1) \<Longrightarrow> pm p1 \<le> pm p"
  unfolding parse_after_key_def
  by (auto simp: Let_def split: sum.splits prod.splits if_splits
           dest!: match_pm advance_pm expect_pm)

lemma parse_body_pm:
  assumes "parse_body p st = Inr (False, p1, st1)"
  shows "pm p1 < pm p"
proof -
  from assms obtain q1 where s1: "skip_newlines p = Inr q1"
    by (auto simp: parse_body_def split: sum.splits)
  from assms s1 obtain m1 q2 where m1: "match q1 STRING False = Inr (m1, q2)"
    by (auto simp: parse_body_def split: sum.splits)
  have le: "pm q2 \<le> pm p"
    using skip_newlines_pm [OF s1] match_pm [OF m1] by simp
  show ?thesis
  proof (cases m1)
    case True
    from assms s1 m1 True obtain key q3 where a: "advance q2 = Inr (key, q3)"
      by (auto simp: parse_body_def split: sum.splits)
    from assms s1 m1 True a obtain q4 where s2: "skip_newlines q3 = Inr q4"
      by (auto simp: parse_body_def split: sum.splits)
    from assms s1 m1 True a s2 have "parse_after_key q4 st (snd key) = Inr (p1, st1)"
      by (auto simp: parse_body_def split: sum.splits)
    then have "pm p1 \<le> pm q4" by (rule parse_after_key_pm)
    then show ?thesis
      using le advance_pm [OF a] skip_newlines_pm [OF s2] by simp
  next
    case False
    from assms s1 m1 False obtain m2 q3 where m2: "match q2 RBRACE True = Inr (m2, q3)"
      by (auto simp: parse_body_def split: sum.splits)
    from assms s1 m1 False m2 have "m2 \<and> q3 = p1"
      by (auto simp: parse_body_def split: sum.splits if_splits)
    then show ?thesis
      using le match_consume_pm [of q2 RBRACE q3] m2 by simp
  qed
qed

text \<open>The loop of \<open>parse\<close>: \<open>while self._lexer\<close> tests that the lexer has input left.\<close>

function parse_loop :: "parser \<Rightarrow> nat list \<Rightarrow> error + (parser \<times> nat list)" where
  "parse_loop p node_stack =
     (if leftover (p_lexer p) \<noteq> [] then
        (case parse_body p node_stack of
           Inl e \<Rightarrow> Inl e
         | Inr (stop, p1, node_stack1) \<Rightarrow>
             if stop then Inr (p1, node_stack1) else parse_loop p1 node_stack1)
      else Inr (p, node_stack))"
  by pat_completeness auto
termination
proof (relation "measure (\<lambda>(p, st). pm p)", goal_cases)
  case 1
  show ?case by simp
next
  case (2 p node_stack x stop y p1 node_stack1)
  then have "parse_body p node_stack = Inr (False, p1, node_stack1)"
    by simp
  then show ?case
    using parse_body_pm by simp
qed

declare parse_loop.simps [simp del]

text \<open>\<open>parse\<close> starts with the root on the node stack; the tree is read from the parser
  it returns.\<close>

definition parse :: "parser \<Rightarrow> error + parser" where
  "parse p =
     (case parse_loop p [0] of
        Inl e \<Rightarrow> Inl e
      | Inr (p1, node_stack) \<Rightarrow> Inr p1)"

definition tree :: "parser \<Rightarrow> dict" where
  "tree p = p_nodes p ! 0"

section \<open>The byte source\<close>

text \<open>
  Modelled from the spec: the byte source (\<open>IBuffer\<close>, \<open>FileBuffer\<close>) is an external
  collaborator; only its interface is given (section 6 of the specification). A Python
  \<open>bytes\<close> value is a list of 8-bit characters, so decoding it as latin-1 leaves the list
  as it is. A buffer is the bytes with a read position; a read past the end fails.
\<close>

type_synonym bytes = string

record buffer =
  data :: bytes
  pos :: nat

record path =
  parent :: string
  name :: string

definition size_of :: "buffer \<Rightarrow> nat" where
  "size_of b = length (data b)"

definition read_bytes :: "buffer \<Rightarrow> nat \<Rightarrow> error + (bytes \<times> buffer)" where
  "read_bytes b n =
     (if pos b + n \<le> length (data b)
      then Inr (take n (drop (pos b) (data b)), b\<lparr>pos := pos b + n\<rparr>)
      else Inl BufferError)"

definition read_all :: "buffer \<Rightarrow> bytes \<times> buffer" where
  "read_all b = (drop (pos b) (data b), b\<lparr>pos := max (pos b) (length (data b))\<rparr>)"

definition read_fourcc :: "buffer \<Rightarrow> error + (string \<times> buffer)" where
  "read_fourcc b = read_bytes b 4"

text \<open>Little-endian integers of 32 bits, unsigned and signed.\<close>

fun le_nat :: "bytes \<Rightarrow> nat" where
  "le_nat [] = 0"
| "le_nat (c # cs) = of_char c + 256 * le_nat cs"

definition read_uint32 :: "buffer \<Rightarrow> error + (int \<times> buffer)" where
  "read_uint32 b =
     (case read_bytes b 4 of Inl e \<Rightarrow> Inl e | Inr (bs, b1) \<Rightarrow> Inr (int (le_nat bs), b1))"

definition read_int32 :: "buffer \<Rightarrow> error + (int \<times> buffer)" where
  "read_int32 b =
     (case read_uint32 b of
        Inl e \<Rightarrow> Inl e
      | Inr (u, b1) \<Rightarrow> Inr (if u < 2 ^ 31 then u else u - 2 ^ 32, b1))"

definition peek_uint32 :: "buffer \<Rightarrow> error + int" where
  "peek_uint32 b = (case read_uint32 b of Inl e \<Rightarrow> Inl e | Inr (u, b1) \<Rightarrow> Inr u)"

definition slice :: "buffer \<Rightarrow> nat \<Rightarrow> nat \<Rightarrow> buffer" where
  "slice b off n = \<lparr>data = take n (drop off (data b)), pos = 0\<rparr>"

text \<open>The files on disk: the content of every path that exists.\<close>

type_synonym filesystem = "path \<Rightarrow> bytes option"

definition exists_path :: "filesystem \<Rightarrow> path \<Rightarrow> bool" where
  "exists_path fs p = (fs p \<noteq> None)"

definition FileBuffer :: "filesystem \<Rightarrow> path \<Rightarrow> error + buffer" where
  "FileBuffer fs p =
     (case fs p of None \<Rightarrow> Inl FileNotFoundError | Some d \<Rightarrow> Inr \<lparr>data = d, pos = 0\<rparr>)"

section \<open>The container (library/source1/bsp/bsp_file.py)\<close>

text \<open>
  Modelled from the spec: \<open>LumpInfo\<close> and the match rule \<open>LumpTag\<close> are declared in
  \<open>lump.py\<close>, which is not part of the sources at hand; their fields are the ones that
  \<open>bsp_file.py\<close> reads and the specification lists (LumpDescriptor, LumpMatchRule).
\<close>

record LumpInfo =
  li_id :: nat
  li_offset :: nat
  li_size :: nat
  li_version :: int
  li_compressed :: bool
  li_decompressed_size :: nat

record LumpTag =
  lump_id :: nat
  lump_name :: string
  lump_version :: "int option"
  bsp_version :: "int option"
  steam_id :: "int option"

text \<open>The dict \<open>lumps\<close> is written under the lump name by \<open>get_lump\<close> and under the lump
  id by \<open>parse_lump\<close>.\<close>

datatype lump_key = ByName string | ById nat

record 'lump BSPFile =
  filepath :: path
  buffer :: buffer
  version :: int
  lumps_info :: "LumpInfo option list"
  lumps :: "lump_key \<Rightarrow> 'lump option option"
  revision :: int
  steam_app_id :: int

text \<open>
  What the container takes from outside: the files on disk; the application id that the
  content manager gives for a path (\<open>CM.get_content_provider_from_path(filepath).steam_id\<close>);
  \<open>LumpInfo.from_buffer\<close>, called with or without its flag \<open>is_l4d2\<close>; the decoder
  classes in the order \<open>Lump.all_subclasses()\<close> yields them, each with its \<open>tags\<close>; the
  codec \<open>Lump.decompress_lump\<close>; and \<open>lump_class(lump_info).parse(buffer, bsp)\<close>, which
  gets the container itself and may change it.
\<close>

record ('cls, 'lump) world =
  files :: filesystem
  steam_id_of :: "path \<Rightarrow> error + int"
  from_buffer :: "buffer \<Rightarrow> bool option \<Rightarrow> error + (LumpInfo \<times> buffer)"
  all_subclasses :: "('cls \<times> LumpTag list) list"
  decompress_lump :: "buffer \<Rightarrow> error + buffer"
  parse_fn :: "'cls \<Rightarrow> LumpInfo \<Rightarrow> buffer option \<Rightarrow> 'lump BSPFile
                 \<Rightarrow> error + ('lump \<times> 'lump BSPFile)"

text \<open>\<open>self.lumps_info[i]\<close>, and reading an attribute of it: the list may hold \<open>None\<close>.\<close>

definition lump_info_at :: "'lump BSPFile \<Rightarrow> nat \<Rightarrow> error + LumpInfo option" where
  "lump_info_at self i =
     (if i < length (lumps_info self) then Inr (lumps_info self ! i) else Inl IndexError)"

definition attr_of :: "LumpInfo option \<Rightarrow> (LumpInfo \<Rightarrow> 'a) \<Rightarrow> error + 'a" where
  "attr_of info f = (case info of None \<Rightarrow> Inl AttributeError | Some i \<Rightarrow> Inr (f i))"

text \<open>The three tests that \<open>get_lump\<close> makes on a tag whose name is the one asked for;
  \<open>False\<close> is \<open>continue\<close>.\<close>

definition tag_passes :: "'lump BSPFile \<Rightarrow> LumpTag \<Rightarrow> error + bool" where
  "tag_passes self dep =
     (if bsp_version dep \<noteq> None \<and> the (bsp_version dep) > version self then Inr False
      else if steam_id dep \<noteq> None \<and> the (steam_id dep) \<noteq> steam_app_id self then Inr False
      else if lump_version dep \<noteq> None then
        (case lump_info_at self (lump_id dep) of
           Inl e \<Rightarrow> Inl e
         | Inr info \<Rightarrow>
             (case attr_of info li_version of
                Inl e \<Rightarrow> Inl e
              | Inr v \<Rightarrow> Inr (the (lump_version dep) = v)))
      else Inr True)"

fun collect_matches ::
  "'lump BSPFile \<Rightarrow> string \<Rightarrow> ('cls \<times> LumpTag) list \<Rightarrow> error + ('cls \<times> LumpTag) list" where
  "collect_matches self nm [] = Inr []"
| "collect_matches self nm ((sub, dep) # rest) =
     (if lump_name dep = nm then
        (case tag_passes self dep of
           Inl e \<Rightarrow> Inl e
         | Inr ok \<Rightarrow>
             (case collect_matches self nm rest of
                Inl e \<Rightarrow> Inl e
              | Inr ms \<Rightarrow> Inr (if ok then (sub, dep) # ms else ms)))
      else collect_matches self nm rest)"

text \<open>The pairs \<open>(sub, dep)\<close> in the order in which the two nested \<open>for\<close> statements visit them.\<close>

definition all_tags :: "('cls \<times> LumpTag list) list \<Rightarrow> ('cls \<times> LumpTag) list" where
  "all_tags subs = concat (map (\<lambda>(sub, tags). map (Pair sub) tags) subs)"

definition rank_of :: "'lump BSPFile \<Rightarrow> LumpTag \<Rightarrow> error + nat" where
  "rank_of self match_dep =
     (case lump_info_at self (lump_id match_dep) of
        Inl e \<Rightarrow> Inl e
      | Inr lump \<Rightarrow>
          (let r1 = (if bsp_version match_dep \<noteq> None \<and> the (bsp_version match_dep) > version self
                     then 1 else 0);
               r2 = (if steam_id match_dep \<noteq> None \<and> the (steam_id match_dep) = steam_app_id self
                     then r1 + 1 else r1)
           in if lump_version match_dep \<noteq> None then
                (case attr_of lump li_version of
                   Inl e \<Rightarrow> Inl e
                 | Inr v \<Rightarrow> Inr (if the (lump_version match_dep) = v then r2 + 1 else r2))
              else Inr r2))"

fun best_matches_of ::
  "'lump BSPFile \<Rightarrow> ('cls \<times> LumpTag) list \<Rightarrow> (nat \<times> ('cls \<times> LumpTag)) list
     \<Rightarrow> error + (nat \<times> ('cls \<times> LumpTag)) list" where
  "best_matches_of self [] best = Inr best"
| "best_matches_of self ((match_sub, match_dep) # rest) best =
     (case rank_of self match_dep of
        Inl e \<Rightarrow> Inl e
      | Inr rank \<Rightarrow> best_matches_of self rest (py_setitem best rank (match_sub, match_dep)))"

fun max_key :: "(nat \<times> 'v) list \<Rightarrow> nat" where
  "max_key [] = 0"
| "max_key ((k, v) # d) = max k (max_key d)"

text \<open>\<open>f'{lump_id:04x}'\<close>: lower-case hexadecimal, padded with zeros to four digits.\<close>

definition hex_digit :: "nat \<Rightarrow> char" where
  "hex_digit d = ''0123456789abcdef'' ! d"

function hex :: "nat \<Rightarrow> string" where
  "hex n = (if n < 16 then [hex_digit n] else hex (n div 16) @ [hex_digit (n mod 16)])"
  by pat_completeness auto
termination
  by (relation "measure id") auto

declare hex.simps [simp del]

definition format_04x :: "nat \<Rightarrow> string" where
  "format_04x n = replicate (4 - length (hex n)) (CHR ''0'') @ hex n"

definition lump_path_of :: "path \<Rightarrow> nat \<Rightarrow> path" where
  "lump_path_of fp i = \<lparr>parent = parent fp, name = name fp @ ''.'' @ format_04x i @ ''.bsp_lump''\<rparr>"

text \<open>\<open>_get_lump_buffer\<close>: the last branch ends without a \<open>return\<close>, so it returns
  \<open>None\<close>.\<close>

definition get_lump_buffer ::
  "('cls, 'lump) world \<Rightarrow> 'lump BSPFile \<Rightarrow> nat \<Rightarrow> LumpInfo
     \<Rightarrow> error + (buffer option \<times> 'lump BSPFile)" where
  "get_lump_buffer w self i lump_info =
     (let lump_path = lump_path_of (filepath self) i
      in if exists_path (files w) lump_path then
           (case FileBuffer (files w) lump_path of
              Inl e \<Rightarrow> Inl e
            | Inr b \<Rightarrow> Inr (Some b, self))
         else if \<not> li_compressed lump_info then
           Inr (Some (slice (buffer self) (li_offset lump_info) (li_size lump_info)), self)
         else
           (case decompress_lump w (slice (buffer self) (li_offset lump_info) (li_size lump_info)) of
              Inl e \<Rightarrow> Inl e
            | Inr d \<Rightarrow>
                if size_of d = li_decompressed_size lump_info
                then Inr (None, self\<lparr>buffer := d\<rparr>)
                else Inl AssertionError))"

definition parse_lump ::
  "('cls, 'lump) world \<Rightarrow> 'lump BSPFile \<Rightarrow> 'cls \<Rightarrow> nat \<Rightarrow> string
     \<Rightarrow> error + ('lump option \<times> 'lump BSPFile)" where
  "parse_lump w self lump_class i nm =
     (case lump_info_at self i of
        Inl e \<Rightarrow> Inl e
      | Inr info \<Rightarrow>
          (case attr_of info li_size of
             Inl e \<Rightarrow> Inl e
           | Inr sz \<Rightarrow>
               if sz \<noteq> 0 then
                 (case info of
                    None \<Rightarrow> Inl AttributeError
                  | Some lump_info \<Rightarrow>
                      (case get_lump_buffer w self i lump_info of
                         Inl e \<Rightarrow> Inl e
                       | Inr (buf, self1) \<Rightarrow>
                           (case parse_fn w lump_class lump_info buf self1 of
                              Inl e \<Rightarrow> Inl e
                            | Inr (parsed_lump, self2) \<Rightarrow>
                                Inr (Some parsed_lump,
                                     self2\<lparr>lumps := (lumps self2)(ById i \<mapsto> Some parsed_lump)\<rparr>))))
               else Inr (None, self)))"

definition get_lump ::
  "('cls, 'lump) world \<Rightarrow> 'lump BSPFile \<Rightarrow> string \<Rightarrow> error + ('lump option \<times> 'lump BSPFile)" where
  "get_lump w self nm =
     (case lumps self (ByName nm) of
        Some cached \<Rightarrow> Inr (cached, self)
      | None \<Rightarrow>
          (case collect_matches self nm (all_tags (all_subclasses w)) of
             Inl e \<Rightarrow> Inl e
           | Inr matches \<Rightarrow>
               (case best_matches_of self matches [] of
                  Inl e \<Rightarrow> Inl e
                | Inr best_matches \<Rightarrow>
                    if best_matches = [] then Inr (None, self)
                    else
                      (case map_of best_matches (max_key best_matches) of
                         None \<Rightarrow> Inl KeyError
                       | Some (sub, dep) \<Rightarrow>
                           (case parse_lump w self sub (lump_id dep) (lump_name dep) of
                              Inl e \<Rightarrow> Inl e
                            | Inr (parsed_lump, self1) \<Rightarrow>
                                Inr (parsed_lump,
                                     self1\<lparr>lumps := (lumps self1)(ByName nm \<mapsto> parsed_lump)\<rparr>))))))"

text \<open>\<open>BSPFile.__init__\<close>.\<close>

definition BSPFile_init :: "('cls, 'lump) world \<Rightarrow> path \<Rightarrow> buffer \<Rightarrow> error + 'lump BSPFile" where
  "BSPFile_init w fp b =
     (case steam_id_of w fp of
        Inl e \<Rightarrow> Inl e
      | Inr sid \<Rightarrow>
          Inr \<lparr>filepath = fp, buffer = b, version = 0, lumps_info = [],
               lumps = (\<lambda>k. None), revision = 0, steam_app_id = sid\<rparr>)"

text \<open>
  The loop that both \<open>from_filename\<close> methods run over the lump ids: read a descriptor,
  set its \<open>id\<close>, store it at \<open>lumps_info[lump_id]\<close>. The store raises IndexError when the
  list is too short.
\<close>

fun read_lumps ::
  "('cls, 'lump) world \<Rightarrow> bool option \<Rightarrow> nat list \<Rightarrow> buffer \<Rightarrow> LumpInfo option list
     \<Rightarrow> error + (LumpInfo option list \<times> buffer)" where
  "read_lumps w flag [] b infos = Inr (infos, b)"
| "read_lumps w flag (i # ids) b infos =
     (case from_buffer w b flag of
        Inl e \<Rightarrow> Inl e
      | Inr (lump, b1) \<Rightarrow>
          if i < length infos
          then read_lumps w flag ids b1 (infos[i := Some (lump\<lparr>li_id := i\<rparr>)])
          else Inl IndexError)"

definition BSPFile_from_filename :: "('cls, 'lump) world \<Rightarrow> path \<Rightarrow> error + 'lump BSPFile" where
  "BSPFile_from_filename w fp =
     (case FileBuffer (files w) fp of
        Inl e \<Rightarrow> Inl e
      | Inr b0 \<Rightarrow>
     (case BSPFile_init w fp b0 of
        Inl e \<Rightarrow> Inl e
      | Inr self \<Rightarrow>
     (case read_fourcc b0 of
        Inl e \<Rightarrow> Inl e
      | Inr (magic, b1) \<Rightarrow>
          if magic \<noteq> ''VBSP'' then Inl AssertionError
          else
     (case read_int32 b1 of
        Inl e \<Rightarrow> Inl e
      | Inr (v, b2) \<Rightarrow>
     (case peek_uint32 b2 of
        Inl e \<Rightarrow> Inl e
      | Inr u \<Rightarrow>
     (let is_l4d2 = (u \<le> 1036 \<and> v = 21)
      in case read_lumps w (Some is_l4d2) [0..<64] b2 (replicate 64 None) of
           Inl e \<Rightarrow> Inl e
         | Inr (infos, b3) \<Rightarrow>
             (case read_int32 b3 of
                Inl e \<Rightarrow> Inl e
              | Inr (r, b4) \<Rightarrow>
                  Inr (self\<lparr>buffer := b4, version := v, lumps_info := infos, revision := r\<rparr>))))))))"

definition RespawnBSPFile_from_filename ::
  "('cls, 'lump) world \<Rightarrow> path \<Rightarrow> error + 'lump BSPFile" where
  "RespawnBSPFile_from_filename w fp =
     (case FileBuffer (files w) fp of
        Inl e \<Rightarrow> Inl e
      | Inr b0 \<Rightarrow>
     (case BSPFile_init w fp b0 of
        Inl e \<Rightarrow> Inl e
      | Inr self \<Rightarrow>
     (case read_fourcc b0 of
        Inl e \<Rightarrow> Inl e
      | Inr (magic, b1) \<Rightarrow>
          if magic \<noteq> ''rBSP'' then Inl AssertionError
          else
     (case read_uint32 b1 of
        Inl e \<Rightarrow> Inl e
      | Inr (v, b2) \<Rightarrow>
     (case read_uint32 b2 of
        Inl e \<Rightarrow> Inl e
      | Inr (r, b3) \<Rightarrow>
     (case read_uint32 b3 of
        Inl e \<Rightarrow> Inl e
      | Inr (last_lump, b4) \<Rightarrow>
          (case read_lumps w None [0..<nat last_lump + 1] b4 (replicate (nat last_lump) None) of
             Inl e \<Rightarrow> Inl e
           | Inr (infos, b5) \<Rightarrow>
               Inr (self\<lparr>buffer := b5, version := v, revision := r, lumps_info := infos\<rparr>))))))))"

text \<open>
  \<open>open_bsp\<close>: \<open>unpack('4sI', f.read(8))\<close> needs eight bytes. When the magic is neither
  of the two, the function ends without a \<open>return\<close> and the caller gets \<open>None\<close>.
\<close>

definition open_bsp :: "('cls, 'lump) world \<Rightarrow> path \<Rightarrow> error + 'lump BSPFile option" where
  "open_bsp w fp =
     (if \<not> exists_path (files w) fp then Inl AssertionError
      else
        (case files w fp of
           None \<Rightarrow> Inl FileNotFoundError
         | Some content \<Rightarrow>
             if length (take 8 content) \<noteq> 8 then Inl StructError
             else
               (let magic = take 4 content
                in if magic = ''VBSP'' then
                     (case BSPFile_from_filename w fp of Inl e \<Rightarrow> Inl e | Inr f \<Rightarrow> Inr (Some f))
                   else if magic = ''rBSP'' then
                     (case RespawnBSPFile_from_filename w fp of
                        Inl e \<Rightarrow> Inl e
                      | Inr f \<Rightarrow> Inr (Some f))
                   else Inr None)))"

section \<open>The entity lump (library/source1/bsp/lumps/entity_lump.py)\<close>

text \<open>\<open>bytes.strip(chars)\<close>: the bytes in \<open>chars\<close> removed at both ends.\<close>

definition bytes_strip :: "bytes \<Rightarrow> bytes \<Rightarrow> bytes" where
  "bytes_strip chars s =
     rev (dropWhile (\<lambda>c. c \<in> set chars) (rev (dropWhile (\<lambda>c. c \<in> set chars) s)))"

text \<open>
  A call with keyword arguments: Python raises TypeError when a keyword is not the name of
  a parameter of the function called. The parameters of \<open>ValveKeyValueParser.__init__\<close>
  are \<open>path\<close>, \<open>buffer_and_name\<close> and \<open>self_recover\<close>.
\<close>

definition ValveKeyValueParser_params :: "string list" where
  "ValveKeyValueParser_params = [''path'', ''buffer_and_name'', ''self_recover'']"

definition bind_keywords :: "string list \<Rightarrow> string list \<Rightarrow> error + unit" where
  "bind_keywords params keywords =
     (if list_all (\<lambda>k. k \<in> set params) keywords then Inr () else Inl TypeError)"

type_synonym entity = "(string \<times> string) list"

text \<open>
  \<open>for ent in parser.tree: self.entities.append(ent.to_dict())\<close>: iterating a dict gives
  its keys, which are strings, and a string has no attribute \<open>to_dict\<close>.
\<close>

fun entities_of :: "string option list \<Rightarrow> error + entity list" where
  "entities_of [] = Inr []"
| "entities_of (ent # ents) = Inl AttributeError"

text \<open>\<open>EntityLump.parse\<close>; the buffer handed in may be \<open>None\<close>. The result is the list
  \<open>self.entities\<close>.\<close>

definition EntityLump_parse :: "buffer option \<Rightarrow> error + entity list" where
  "EntityLump_parse buf =
     (case buf of
        None \<Rightarrow> Inl AttributeError
      | Some b \<Rightarrow>
          (let text = bytes_strip [CHR 0x00] (fst (read_all b))
           in case bind_keywords ValveKeyValueParser_params
                     [''buffer_and_name'', ''self_recover'', ''array_of_blocks''] of
                Inl e \<Rightarrow> Inl e
              | Inr _ \<Rightarrow>
                  (case ValveKeyValueParser_init (\<lambda>pth. Inl FileNotFoundError) None
                          (Some (text, ''EntityLump'')) True of
                     Inl e \<Rightarrow> Inl e
                   | Inr parser \<Rightarrow>
                       (case parse parser of
                          Inl e \<Rightarrow> Inl e
                        | Inr parser1 \<Rightarrow> entities_of (map fst (tree parser1))))))"

section \<open>Documents\<close>

text \<open>
  Parsing a text held in memory, as the \<open>__main__\<close> block of \<open>kv_parser.py\<close> does:
  construct the parser from \<open>buffer_and_name\<close> and call \<open>parse\<close>.
\<close>

definition parse_text :: "string \<Rightarrow> bool \<Rightarrow> error + parser" where
  "parse_text text self_recover =
     (case ValveKeyValueParser_init (\<lambda>pth. Inl FileNotFoundError) None
             (Some (text, ''memory'')) self_recover of
        Inl e \<Rightarrow> Inl e
      | Inr p \<Rightarrow> parse p)"

text \<open>
  A word is a non-empty run of characters that the lexer reads as one unquoted string:
  valid symbols other than space and tab, not starting a \<open>//\<close> comment. The terminators
  are the ones \<open>lex\<close> passes to \<open>read_simple_string\<close>.
\<close>

definition word_char :: "char \<Rightarrow> bool" where
  "word_char c = (is_valid_symbol [c] \<and> c \<noteq> CHR '' '' \<and> c \<noteq> TAB)"

definition word :: "string \<Rightarrow> bool" where
  "word k = (k \<noteq> [] \<and> list_all word_char k \<and> take 2 k \<noteq> ''//'')"

abbreviation simple_terminators :: string where
  "simple_terminators \<equiv> [CHR '' '', TAB, NL]"

text \<open>
  The tokens still to come: what successive calls of \<open>advance\<close> return, up to the call
  that raises.
\<close>

function pending :: "parser \<Rightarrow> token list" where
  "pending p = (case advance p of Inl e \<Rightarrow> [] | Inr (t, p1) \<Rightarrow> t # pending p1)"
  by pat_completeness auto
termination
proof (relation "measure pm", goal_cases)
  case 1
  show ?case by simp
next
  case (2 p x t p1)
  then show ?case using advance_pm [of p t p1] by simp
qed

declare pending.simps [simp del]

section \<open>Sample inputs\<close>

text \<open>
  A container of version 21 with one lump of four bytes, and a registry of two decoder
  classes for the lump name \<open>X\<close>: \<open>Versioned\<close>, whose rule asks for a container version
  of at least 20, and \<open>Plain\<close>, whose rule has no constraint. The sample decoder returns
  the name of its class and says whether it was given a buffer.
\<close>

definition demo_path :: path where
  "demo_path = \<lparr>parent = ''maps'', name = ''demo.bsp''\<rparr>"

definition rule_versioned :: LumpTag where
  "rule_versioned =
     \<lparr>lump_id = 0, lump_name = ''X'', lump_version = None, bsp_version = Some 20, steam_id = None\<rparr>"

definition rule_plain :: LumpTag where
  "rule_plain =
     \<lparr>lump_id = 0, lump_name = ''X'', lump_version = None, bsp_version = None, steam_id = None\<rparr>"

definition demo_info :: "bool \<Rightarrow> LumpInfo" where
  "demo_info c =
     \<lparr>li_id = 0, li_offset = 0, li_size = 4, li_version = 0, li_compressed = c,
      li_decompressed_size = 4\<rparr>"

definition demo_bsp :: "bool \<Rightarrow> string BSPFile" where
  "demo_bsp c =
     \<lparr>filepath = demo_path, buffer = \<lparr>data = ''abcd'', pos = 0\<rparr>, version = 21,
      lumps_info = [Some (demo_info c)], lumps = (\<lambda>k. None), revision = 0, steam_app_id = 440\<rparr>"

definition demo_world :: "(string, string) world" where
  "demo_world =
     \<lparr>files = (\<lambda>p. None), steam_id_of = (\<lambda>p. Inr 440),
      from_buffer = (\<lambda>b flag. Inl BufferError),
      all_subclasses = [(''Versioned'', [rule_versioned]), (''Plain'', [rule_plain])],
      decompress_lump = (\<lambda>b. Inr b),
      parse_fn = (\<lambda>cls info buf self.
                    Inr (cls @ (if buf = None then '' got None'' else '' got a buffer''), self))\<rparr>"

text \<open>A lexer and a parser in recovery mode over a buffer named \<open>memory\<close>, given by
  their fields.\<close>

definition sample_lexer :: "string \<Rightarrow> nat \<Rightarrow> nat \<Rightarrow> lexer" where
  "sample_lexer rest ln col =
     \<lparr>leftover = rest, buffer_name = ''memory'', line = ln, column = col, emitted = []\<rparr>"

definition sample_parser :: "lexer \<Rightarrow> bool \<Rightarrow> token option \<Rightarrow> dict list \<Rightarrow> warning list \<Rightarrow> parser" where
  "sample_parser lx ex pk nodes ws =
     \<lparr>p_lexer = lx, p_exhausted = ex, p_last_peek = pk, p_self_recover = True,
      p_path = ''memory'', p_nodes = nodes, p_warnings = ws\<rparr>"

section \<open>Properties\<close>

text \<open>
  C3. The claim is that \<open>EntityLump.parse\<close> produces one EntityRecord per top-level block
  of the lump text. On the code, \<open>EntityLump.parse\<close> calls the parser's constructor with
  the keyword \<open>array_of_blocks\<close>, which the constructor does not have: for every buffer the
  call raises TypeError and no record is produced.
\<close>

theorem EntityLump_parse_raises_TypeError:
  "EntityLump_parse (Some b) = Inl TypeError"
  by (simp add: EntityLump_parse_def bind_keywords_def ValveKeyValueParser_params_def)

text \<open>
  The score of a rule that has passed the filter counts its required application id and
  its required lump version, and nothing for its container-version bound.
\<close>

lemma rank_of_passing_tag:
  assumes "tag_passes self dep = Inr True" and "rank_of self dep = Inr r"
  shows "r = (if steam_id dep \<noteq> None then 1 else 0) + (if lump_version dep \<noteq> None then 1 else 0)"
  using assms
  by (auto simp: tag_passes_def rank_of_def Let_def split: if_splits sum.splits)

text \<open>
  C1. The claim is that the ranking score of a candidate counts every constraint that is
  present and satisfied, a satisfied minimum container version among them, and that the
  highest score wins. On the code, the score adds a point for the container-version bound
  only when the bound is above the container's version, which the filter has already
  excluded: in the sample container (version 21) the rule \<open>Versioned\<close> (bound 20) passes
  the filter and scores 0, the same as the unconstrained rule \<open>Plain\<close>, and \<open>get_lump\<close>
  picks \<open>Plain\<close>, the later of the two.
\<close>

theorem get_lump_scores_version_bound_zero:
  "tag_passes (demo_bsp False) rule_versioned = Inr True
   \<and> rank_of (demo_bsp False) rule_versioned = Inr 0
   \<and> rank_of (demo_bsp False) rule_plain = Inr 0
   \<and> map_sum id fst (get_lump demo_world (demo_bsp False) ''X'') = Inr (Some ''Plain got a buffer'')"
  by (simp add: tag_passes_def rank_of_def get_lump_def parse_lump_def get_lump_buffer_def
        demo_bsp_def demo_world_def rule_versioned_def rule_plain_def demo_info_def
        lump_info_at_def attr_of_def all_tags_def exists_path_def lump_path_of_def)

text \<open>
  A descriptor is stored at its own index, so the loop over the lump ids can only finish
  when every id is within the list.
\<close>

lemma read_lumps_ids_in_range:
  "read_lumps w flag ids b infos = Inr r \<Longrightarrow> list_all (\<lambda>i. i < length infos) ids"
proof (induction ids arbitrary: b infos)
  case Nil
  then show ?case by simp
next
  case (Cons i ids)
  from Cons.prems obtain lump b1 where fb: "from_buffer w b flag = Inr (lump, b1)"
    by (auto split: sum.splits)
  from Cons.prems fb have i: "i < length infos"
    by (auto split: if_splits)
  from Cons.prems fb i
  have "read_lumps w flag ids b1 (infos[i := Some (lump\<lparr>li_id := i\<rparr>)]) = Inr r"
    by simp
  from Cons.IH [OF this] show ?case
    using i by simp
qed

text \<open>
  A respawn file with last lump index 0 and one descriptor of sixteen bytes: the descriptor
  is read, and storing it raises IndexError.
\<close>

lemma RespawnBSPFile_from_filename_example:
  "RespawnBSPFile_from_filename
     (w\<lparr>files := (\<lambda>p. Some (''rBSP'' @ [CHR 0x25, CHR 0x00, CHR 0x00, CHR 0x00]
                                    @ [CHR 0x01, CHR 0x00, CHR 0x00, CHR 0x00]
                                    @ [CHR 0x00, CHR 0x00, CHR 0x00, CHR 0x00]
                                    @ replicate 16 (CHR 0x00))),
        steam_id_of := (\<lambda>p. Inr 440),
        from_buffer := (\<lambda>b flag.
           case read_bytes b 16 of
             Inl e \<Rightarrow> Inl e
           | Inr (bs, b1) \<Rightarrow>
               Inr (\<lparr>li_id = 0, li_offset = 0, li_size = 0, li_version = 0,
                      li_compressed = False, li_decompressed_size = 0\<rparr>, b1))\<rparr>) fp
     = Inl IndexError"
  by (simp add: RespawnBSPFile_from_filename_def FileBuffer_def BSPFile_init_def read_fourcc_def
        read_bytes_def read_uint32_def)

text \<open>
  C2. The claim is that \<open>RespawnBSPFile.from_filename\<close> reads L+1 descriptors and stores
  the one at position i under identifier i, for i from 0 to L. On the code, the list
  \<open>lumps_info\<close> is created with L entries and the loop runs over L+1 ids, so the store at
  index L raises IndexError: for every file and every environment the method does not
  return a container.
\<close>

theorem RespawnBSPFile_from_filename_never_returns:
  "RespawnBSPFile_from_filename w fp \<noteq> Inr f"
proof
  assume a: "RespawnBSPFile_from_filename w fp = Inr f"
  then obtain flag b infos r last_lump where
    "read_lumps w flag [0..<nat last_lump + 1] b (replicate (nat last_lump) None) = Inr r"
    unfolding RespawnBSPFile_from_filename_def
    by (auto split: sum.splits prod.splits if_splits)
  from read_lumps_ids_in_range [OF this] show False
    by (simp add: list_all_iff)
qed

text \<open>
  C4. The claim is that \<open>open_bsp\<close> raises when the magic is neither \<open>VBSP\<close> nor \<open>rBSP\<close>.
  On the code, a file of eight bytes that starts with \<open>XBSP\<close> makes \<open>open_bsp\<close> return
  \<open>None\<close> without raising.
\<close>

theorem open_bsp_unknown_magic_returns_None:
  "open_bsp (w\<lparr>files := (\<lambda>p. Some (''XBSP'' @ [CHR 0x14, CHR 0x00, CHR 0x00, CHR 0x00]))\<rparr>) fp
     = Inr None"
  by (simp add: open_bsp_def exists_path_def)

text \<open>
  C8. When no override file exists and the descriptor is marked compressed,
  \<open>_get_lump_buffer\<close> replaces the container's buffer with the decompressed slice and,
  when the decompressed size is the declared one, returns \<open>None\<close>; \<open>parse_lump\<close> then
  calls the decoder with \<open>None\<close> in place of a buffer.
\<close>

theorem compressed_lump_buffer_is_None:
  assumes "\<not> exists_path (files w) (lump_path_of (filepath self) i)"
    and "li_compressed info"
    and "decompress_lump w (slice (buffer self) (li_offset info) (li_size info)) = Inr d"
    and "size_of d = li_decompressed_size info"
  shows "get_lump_buffer w self i info = Inr (None, self\<lparr>buffer := d\<rparr>)
         \<and> (i < length (lumps_info self) \<and> lumps_info self ! i = Some info \<and> li_size info \<noteq> 0
              \<longrightarrow> parse_lump w self cls i nm =
                    (case parse_fn w cls info None (self\<lparr>buffer := d\<rparr>) of
                       Inl e \<Rightarrow> Inl e
                     | Inr (parsed_lump, self2) \<Rightarrow>
                         Inr (Some parsed_lump,
                              self2\<lparr>lumps := (lumps self2)(ById i \<mapsto> Some parsed_lump)\<rparr>)))"
  using assms
  by (simp add: get_lump_buffer_def parse_lump_def lump_info_at_def attr_of_def)

text \<open>Witness for C8: the sample container with its lump marked compressed.\<close>

theorem compressed_lump_buffer_is_None_witness:
  "get_lump_buffer demo_world (demo_bsp True) 0 (demo_info True)
     = Inr (None, demo_bsp True)
   \<and> map_sum id fst (parse_lump demo_world (demo_bsp True) ''Plain'' 0 ''X'')
     = Inr (Some ''Plain got None'')"
  using compressed_lump_buffer_is_None [of demo_world "demo_bsp True" 0 "demo_info True"
      "\<lparr>data = ''abcd'', pos = 0\<rparr>" "''Plain''" "''X''"]
  by (simp add: demo_world_def demo_bsp_def demo_info_def demo_path_def exists_path_def
        slice_def size_of_def)

text \<open>
  C6. When \<open>get_lump\<close> has returned for a name, a second call for the same name on the
  container as the first call left it returns the same result and leaves the container
  as it is, whatever the decoder, the codec and the files are then: nothing is decoded
  again. A result other than \<open>None\<close> is the entry cached under the name.
\<close>

theorem get_lump_memoized:
  assumes "get_lump w self nm = Inr (r, self1)"
  shows "get_lump (w\<lparr>files := fs, decompress_lump := dc, parse_fn := pf\<rparr>) self1 nm = Inr (r, self1)
         \<and> (r \<noteq> None \<longrightarrow> lumps self1 (ByName nm) = Some r)"
proof (cases "lumps self (ByName nm)")
  case (Some cached)
  then show ?thesis
    using assms by (auto simp: get_lump_def)
next
  case None
  from assms None obtain ms where ms: "collect_matches self nm (all_tags (all_subclasses w)) = Inr ms"
    by (auto simp: get_lump_def split: sum.splits)
  from assms None ms obtain best where best: "best_matches_of self ms [] = Inr best"
    by (auto simp: get_lump_def split: sum.splits)
  show ?thesis
  proof (cases "best = []")
    case True
    then show ?thesis
      using assms None ms best by (auto simp: get_lump_def)
  next
    case False
    with assms None ms best
    have "\<exists>s1. self1 = s1\<lparr>lumps := (lumps s1)(ByName nm \<mapsto> r)\<rparr>"
      by (auto simp: get_lump_def split: sum.splits option.splits prod.splits)
    then obtain s1 where "self1 = s1\<lparr>lumps := (lumps s1)(ByName nm \<mapsto> r)\<rparr>" ..
    then show ?thesis
      by (simp add: get_lump_def)
  qed
qed

text \<open>Witness for C6: the sample container; the second call is made with a decoder and
  a codec that can only fail.\<close>

theorem get_lump_memoized_witness:
  "get_lump demo_world (demo_bsp False) ''X''
     = Inr (Some ''Plain got a buffer'',
            (demo_bsp False)\<lparr>lumps := [ById 0 \<mapsto> Some ''Plain got a buffer'',
                                        ByName ''X'' \<mapsto> Some ''Plain got a buffer'']\<rparr>)
   \<and> get_lump (demo_world\<lparr>files := (\<lambda>p. None), decompress_lump := (\<lambda>b. Inl ExternalError),
                            parse_fn := (\<lambda>cls info buf self. Inl ExternalError)\<rparr>)
        ((demo_bsp False)\<lparr>lumps := [ById 0 \<mapsto> Some ''Plain got a buffer'',
                                     ByName ''X'' \<mapsto> Some ''Plain got a buffer'']\<rparr>) ''X''
     = Inr (Some ''Plain got a buffer'',
            (demo_bsp False)\<lparr>lumps := [ById 0 \<mapsto> Some ''Plain got a buffer'',
                                        ByName ''X'' \<mapsto> Some ''Plain got a buffer'']\<rparr>)"
proof -
  have first: "get_lump demo_world (demo_bsp False) ''X''
     = Inr (Some ''Plain got a buffer'',
            (demo_bsp False)\<lparr>lumps := [ById 0 \<mapsto> Some ''Plain got a buffer'',
                                        ByName ''X'' \<mapsto> Some ''Plain got a buffer'']\<rparr>)"
    by (simp add: tag_passes_def rank_of_def get_lump_def parse_lump_def get_lump_buffer_def
        demo_bsp_def demo_world_def rule_versioned_def rule_plain_def demo_info_def
        lump_info_at_def attr_of_def all_tags_def exists_path_def lump_path_of_def)
  from get_lump_memoized [OF first] first show ?thesis by simp
qed

subsection \<open>The lexer on quotes, words and single characters\<close>

lemma space_char_quotes [simp]: "\<not> space_char SQUOTE" "\<not> space_char DQUOTE"
  by (simp_all add: space_char_def)

lemma quote_facts:
  assumes "q = SQUOTE \<or> q = DQUOTE"
  shows "\<not> isspace [q]" "\<not> is_valid_symbol [q]" "str_in [q] [SQUOTE, DQUOTE]"
    "q \<noteq> NL" "q \<noteq> CR" "q \<noteq> CHR ''/''" "q \<noteq> CHR ''{''" "q \<noteq> CHR ''}''"
  using assms by (auto simp: isspace_def is_valid_symbol_def)

lemma advance_lexer_plain:
  assumes "leftover l = c # rest" and "c \<noteq> NL" and "c \<noteq> CR"
  shows "advance_lexer l = ([c], l\<lparr>leftover := rest, column := column l + 1\<rparr>)"
  using assms by (simp add: advance_lexer_def symbol_def Let_def)

lemma lex_step_quote_pair:
  assumes l: "leftover l = q1 # q2 # rest"
    and q1: "q1 = SQUOTE \<or> q1 = DQUOTE" and q2: "q2 = SQUOTE \<or> q2 = DQUOTE"
  shows "lex_step l = Inr ((STRING, Some []), l\<lparr>leftover := rest, column := column l + 2\<rparr>)"
proof -
  have sy: "symbol l = [q1]" and ns: "next_symbol l = [q2]" and ne: "leftover l \<noteq> []"
    using l by (simp_all add: symbol_def next_symbol_def)
  have a1: "advance_lexer l = ([q1], l\<lparr>leftover := q2 # rest, column := column l + 1\<rparr>)"
    using advance_lexer_plain [OF l] quote_facts(4,5) [OF q1] by simp
  have a2: "advance_lexer (l\<lparr>leftover := q2 # rest, column := column l + 1\<rparr>)
              = ([q2], l\<lparr>leftover := rest, column := column l + 2\<rparr>)"
    using advance_lexer_plain [of "l\<lparr>leftover := q2 # rest, column := column l + 1\<rparr>" q2 rest]
      quote_facts(4,5) [OF q2] by simp
  show ?thesis
    apply (subst lex_step.simps)
    apply (simp only: sy ns ne quote_facts [OF q1] quote_facts(3) [OF q2] a1 a2
        list.inject simp_thms if_True if_False snd_conv not_False_eq_True)
    done
qed

lemma word_char_not_space: "word_char c \<Longrightarrow> \<not> space_char c"
proof
  assume w: "word_char c" and s: "space_char c"
  from w have "printable_char c" and ne: "c \<noteq> CHR '' ''"
    by (auto simp: word_char_def is_valid_symbol_def isprintable_def)
  with s have "of_char c = (0x20::nat)"
    by (auto simp: printable_char_def space_char_def Let_def)
  then have "of_char c = (of_char (CHR '' '') :: nat)" by simp
  then have "c = CHR '' ''" by (simp only: of_char_eq_iff)
  with ne show False by simp
qed

lemma word_char_facts:
  assumes "word_char c"
  shows "is_valid_symbol [c]" "c \<noteq> CHR '' ''" "c \<noteq> TAB" "c \<noteq> NL" "c \<noteq> CR"
    "c \<noteq> CHR ''{''" "c \<noteq> CHR ''}''" "c \<noteq> CHR ''[''" "c \<noteq> CHR '']''"
    "c \<noteq> SQUOTE" "c \<noteq> DQUOTE" "\<not> isspace [c]"
proof -
  show v: "is_valid_symbol [c]" and "c \<noteq> CHR '' ''" and "c \<noteq> TAB"
    using assms by (simp_all add: word_char_def)
  from v have "c \<notin> set [CHR ''{'', CHR ''}'', CHR ''['', CHR '']'', DQUOTE, SQUOTE, NL, CR]"
    by (simp only: is_valid_symbol_def str_in_single) simp
  then show "c \<noteq> NL" "c \<noteq> CR" "c \<noteq> CHR ''{''" "c \<noteq> CHR ''}''" "c \<noteq> CHR ''[''"
    "c \<noteq> CHR '']''" "c \<noteq> SQUOTE" "c \<noteq> DQUOTE"
    by simp_all
  show "\<not> isspace [c]"
    using word_char_not_space [OF assms] by (simp add: isspace_def)
qed

lemma strip_word: "word k \<Longrightarrow> strip k = k"
proof -
  assume w: "word k"
  then have ne: "k \<noteq> []" and all: "list_all word_char k" by (simp_all add: word_def)
  have "hd k \<in> set k" and "last k \<in> set k" using ne by simp_all
  then have h: "\<not> space_char (hd k)" and l: "\<not> space_char (last k)"
    using all word_char_not_space by (simp_all add: list_all_iff)
  have 1: "dropWhile space_char k = k"
    using ne h by (cases k) simp_all
  have "rev k \<noteq> []" and "\<not> space_char (hd (rev k))"
    using ne l by (simp_all add: hd_rev)
  then have 2: "dropWhile space_char (rev k) = rev k"
    by (cases "rev k") simp_all
  show ?thesis by (simp add: strip_def 1 2)
qed

lemma read_simple_loop_word:
  assumes "list_all word_char k"
    and "\<not> is_valid_symbol (take 1 rest) \<or> str_in (take 1 rest) simple_terminators"
  shows "read_simple_loop simple_terminators (l\<lparr>leftover := k @ rest\<rparr>) acc
           = (acc @ k, l\<lparr>leftover := rest, column := column l + length k\<rparr>)"
  using assms(1)
proof (induction k arbitrary: l acc)
  case Nil
  have "symbol (l\<lparr>leftover := rest\<rparr>) = take 1 rest" by (simp add: symbol_def)
  then show ?case
    using assms(2) by (subst read_simple_loop.simps) (simp add: Let_def)
next
  case (Cons c k)
  then have wc: "word_char c" and rest: "list_all word_char k" by simp_all
  note f = word_char_facts [OF wc]
  have nt: "\<not> str_in [c] simple_terminators"
    using f(2,3,4) by simp
  have adv: "advance_lexer (l\<lparr>leftover := c # k @ rest\<rparr>)
               = ([c], l\<lparr>column := column l + 1, leftover := k @ rest\<rparr>)"
    using f(4,5) by (simp add: advance_lexer_def symbol_def Let_def)
  have sy: "symbol (l\<lparr>leftover := c # k @ rest\<rparr>) = [c]"
    by (simp add: symbol_def)
  have "read_simple_loop simple_terminators (l\<lparr>leftover := c # k @ rest\<rparr>) acc
          = read_simple_loop simple_terminators
              (l\<lparr>column := column l + 1, leftover := k @ rest\<rparr>) (acc @ [c])"
    by (subst read_simple_loop.simps) (simp only: sy adv Let_def f(1) nt simp_thms if_False prod.case)
  also have "\<dots> = ((acc @ [c]) @ k,
                     (l\<lparr>column := column l + 1\<rparr>)\<lparr>leftover := rest,
                        column := column (l\<lparr>column := column l + 1\<rparr>) + length k\<rparr>)"
    using Cons.IH [OF rest, of "l\<lparr>column := column l + 1\<rparr>" "acc @ [c]"] by simp
  finally show ?case by simp
qed

lemma read_simple_string_word:
  assumes "word k"
    and "\<not> is_valid_symbol (take 1 rest) \<or> str_in (take 1 rest) simple_terminators"
  shows "read_simple_string simple_terminators (l\<lparr>leftover := k @ rest\<rparr>)
           = (k, l\<lparr>leftover := rest, column := column l + length k\<rparr>)"
proof -
  have "list_all word_char k" using assms(1) by (simp add: word_def)
  from read_simple_loop_word [OF this assms(2), of l "[]"] show ?thesis
    by (simp add: read_simple_string_def strip_word [OF assms(1)])
qed

lemma lex_step_word:
  assumes w: "word k"
    and r: "\<not> is_valid_symbol (take 1 rest) \<or> str_in (take 1 rest) simple_terminators"
  shows "lex_step (l\<lparr>leftover := k @ rest\<rparr>)
           = Inr ((STRING, Some k), l\<lparr>leftover := rest, column := column l + length k\<rparr>)"
proof -
  from w obtain c k' where k: "k = c # k'" and wc: "word_char c"
    by (cases k) (simp_all add: word_def)
  note f = word_char_facts [OF wc]
  let ?l = "l\<lparr>leftover := k @ rest\<rparr>"
  have ne: "leftover ?l \<noteq> []" using k by simp
  have sy: "symbol ?l = [c]" using k by (simp add: symbol_def)
  have nc: "\<not> (symbol ?l = [CHR ''/''] \<and> next_symbol ?l = [CHR ''/''])"
  proof (cases k')
    case Nil
    have "is_valid_symbol [CHR ''/'']" "\<not> str_in [CHR ''/''] simple_terminators"
      by (simp_all add: is_valid_symbol_def isprintable_def printable_char_def)
    then have "take 1 rest \<noteq> [CHR ''/'']" using r by auto
    then show ?thesis using k Nil by (simp add: next_symbol_def)
  next
    case (Cons c2 k2)
    then have "take 2 k = [c, c2]" using k by simp
    then have "[c, c2] \<noteq> ''//''" using w by (simp add: word_def)
    then show ?thesis using k Cons by (auto simp add: symbol_def next_symbol_def)
  qed
  have rs: "read_simple_string simple_terminators ?l
              = (k, l\<lparr>leftover := rest, column := column l + length k\<rparr>)"
    by (rule read_simple_string_word [OF w r])
  have kne: "k \<noteq> []" using k by simp
  have nc': "\<not> (c = CHR ''/'' \<and> next_symbol ?l = [CHR ''/''])"
    using nc sy by simp
  show ?thesis
    apply (subst lex_step.simps)
    apply (simp only: ne nc' rs sy f list.inject kne simp_thms if_True if_False prod.case
        not_False_eq_True)
    done
qed

lemma lex_step_space:
  assumes "leftover l = CHR '' '' # rest"
  shows "lex_step l = lex_step (l\<lparr>leftover := rest, column := column l + 1\<rparr>)"
proof -
  have sy: "symbol l = [CHR '' '']" and ne: "leftover l \<noteq> []"
    using assms by (simp_all add: symbol_def)
  have sp: "isspace [CHR '' '']" and nn: "[CHR '' ''] \<noteq> [NL]"
    by (simp_all add: isspace_def space_char_def)
  have a: "advance_lexer l = ([CHR '' ''], l\<lparr>leftover := rest, column := column l + 1\<rparr>)"
    using advance_lexer_plain [OF assms] by simp
  show ?thesis
    apply (subst lex_step.simps)
    apply (simp only: sy ne sp nn a simp_thms if_True if_False snd_conv)
    done
qed

lemma lex_step_newline:
  assumes "leftover l = NL # rest" and "take 1 rest \<noteq> [NL]"
  shows "lex_step l = Inr ((NEWLINE, Some [NL]), l\<lparr>leftover := rest, line := line l + 1, column := 1\<rparr>)"
proof -
  have sy: "symbol l = [NL]" and ne: "leftover l \<noteq> []" and ns: "next_symbol l \<noteq> [NL]"
    using assms by (simp_all add: symbol_def next_symbol_def)
  have a: "advance_lexer l = ([NL], l\<lparr>leftover := rest, line := line l + 1, column := 1\<rparr>)"
    using assms(1) by (simp add: advance_lexer_def symbol_def next_symbol_def Let_def)
  show ?thesis
    apply (subst lex_step.simps)
    apply (simp only: sy ne ns a Let_def simp_thms if_True if_False prod.case)
    done
qed


lemma lex_step_eof: "leftover l = [] \<Longrightarrow> lex_step l = Inr ((EOF, None), l)"
  by (subst lex_step.simps) simp

subsection \<open>The parser's operations in terms of the next token\<close>

lemma peek_fresh:
  assumes "p_last_peek p = None" and "\<not> p_exhausted p" and "lex_step (p_lexer p) = Inr (t, l1)"
  shows "peek p = Inr (t, p\<lparr>p_lexer := l1, p_exhausted := (fst t = EOF), p_last_peek := Some t\<rparr>)"
  using assms by (simp add: peek_def next_token_def)

lemma peek_cached: "p_last_peek p = Some t \<Longrightarrow> peek p = Inr (t, p)"
  by (simp add: peek_def)

lemma peek_sets_last_peek: "peek p = Inr (t, p1) \<Longrightarrow> p_last_peek p1 = Some t"
  by (auto simp: peek_def next_token_def split: option.splits sum.splits if_splits)

lemma advance_cached: "p_last_peek p = Some t \<Longrightarrow> advance p = Inr (t, p\<lparr>p_last_peek := None\<rparr>)"
  by (simp add: advance_def)

lemma match_peeked:
  assumes "peek p = Inr (t, p1)"
  shows "match p tt False = Inr (fst t = tt, p1)"
    and "fst t \<noteq> tt \<Longrightarrow> match p tt c = Inr (False, p1)"
    and "fst t = tt \<Longrightarrow> match p tt True = Inr (True, p1\<lparr>p_last_peek := None\<rparr>)"
  using assms peek_sets_last_peek [OF assms]
  by (cases t; simp add: match_def advance_def)+

lemma skip_newlines_stop:
  assumes "peek p = Inr (t, p1)" and "fst t \<noteq> NEWLINE"
  shows "skip_newlines p = Inr p1"
  using match_peeked(1) [OF assms(1), of NEWLINE] assms(2)
  by (subst skip_newlines.simps) simp








text \<open>
  C10. The empty-string case of the lexer fires for any two quote characters in a row,
  alike or not: both are consumed and one empty STRING token is yielded.
\<close>

theorem lex_quote_pair_of_any_kind:
  assumes "leftover l = q1 # q2 # rest"
    and "q1 = SQUOTE \<or> q1 = DQUOTE" and "q2 = SQUOTE \<or> q2 = DQUOTE"
  shows "lex_step l = Inr ((STRING, Some []), l\<lparr>leftover := rest, column := column l + 2\<rparr>)"
  using assms by (rule lex_step_quote_pair)

text \<open>Witness for C10: a double quote followed by a single quote, then \<open>a"\<close>.\<close>

theorem lex_quote_pair_of_any_kind_witness:
  "lex_step (ValveKeyValueLexer_init [DQUOTE, SQUOTE, CHR ''a'', DQUOTE] ''memory'')
     = Inr ((STRING, Some []),
            \<lparr>leftover = [CHR ''a'', DQUOTE], buffer_name = ''memory'', line = 1, column = 3,
             emitted = []\<rparr>)"
  using lex_quote_pair_of_any_kind
    [of "ValveKeyValueLexer_init [DQUOTE, SQUOTE, CHR ''a'', DQUOTE] ''memory''"
        DQUOTE SQUOTE "[CHR ''a'', DQUOTE]"]
  by (simp add: ValveKeyValueLexer_init_def)

subsection \<open>Recovery in \<open>expect\<close>\<close>

lemma pending_advance: "advance p = Inr (t, p1) \<Longrightarrow> pending p = t # pending p1"
  by (subst pending.simps) simp

lemma pending_Cons_advance: "pending p = t # ts \<Longrightarrow> \<exists>p1. advance p = Inr (t, p1) \<and> pending p1 = ts"
  by (subst (asm) pending.simps) (auto split: sum.splits)

lemma advance_None_peek:
  assumes "p_last_peek p = None" and "advance p = Inr (t, q)"
  shows "peek p = Inr (t, q\<lparr>p_last_peek := Some t\<rparr>)" and "q\<lparr>p_last_peek := None\<rparr> = q"
  using assms by (auto simp: advance_def peek_def next_token_def split: if_splits sum.splits)

lemma pending_peek:
  assumes "pending p = t # ts"
  shows "\<exists>p1. peek p = Inr (t, p1) \<and> pending p1 = t # ts \<and> p_last_peek p1 = Some t
              \<and> pending (p1\<lparr>p_last_peek := None\<rparr>) = ts
              \<and> p_warnings p1 = p_warnings p \<and> p_nodes p1 = p_nodes p
              \<and> p_self_recover p1 = p_self_recover p \<and> p_path p1 = p_path p"
proof -
  from pending_Cons_advance [OF assms] obtain q where a: "advance p = Inr (t, q)" and q: "pending q = ts"
    by blast
  show ?thesis
  proof (cases "p_last_peek p")
    case None
    let ?p1 = "q\<lparr>p_last_peek := Some t\<rparr>"
    have pk: "peek p = Inr (t, ?p1)" and qq: "q\<lparr>p_last_peek := None\<rparr> = q"
      using advance_None_peek [OF None a] by simp_all
    have "advance ?p1 = Inr (t, q)"
      using qq by (simp add: advance_def)
    then have "pending ?p1 = t # ts"
      using q pending_advance by simp
    moreover have "p_warnings q = p_warnings p \<and> p_nodes q = p_nodes p
                   \<and> p_self_recover q = p_self_recover p \<and> p_path q = p_path p"
      using a None by (auto simp: advance_def next_token_def split: if_splits sum.splits)
    ultimately show ?thesis
      using pk qq q by simp
  next
    case (Some u)
    then have "u = t" and "q = p\<lparr>p_last_peek := None\<rparr>"
      using a by (simp_all add: advance_def)
    then show ?thesis
      using Some assms q by (simp add: peek_def)
  qed
qed

lemma recover_loop_pending:
  assumes "list_ex (\<lambda>x. fst x = NEWLINE) (pending p)"
  shows "\<exists>p'. recover_loop p = Inr p'
              \<and> pending p' = dropWhile (\<lambda>x. fst x \<noteq> NEWLINE) (pending p)
              \<and> p_last_peek p' = Some (hd (pending p'))
              \<and> p_warnings p' = p_warnings p \<and> p_nodes p' = p_nodes p
              \<and> p_self_recover p' = p_self_recover p"
  using assms
proof (induction "pending p" arbitrary: p)
  case Nil
  then show ?case by simp
next
  case (Cons t ts)
  from Cons.hyps(2) have pd: "pending p = t # ts" by simp
  from pending_peek [OF pd] obtain p1 where
    pk: "peek p = Inr (t, p1)" and p1: "pending p1 = t # ts" and lp: "p_last_peek p1 = Some t"
    and p2: "pending (p1\<lparr>p_last_peek := None\<rparr>) = ts"
    and keep: "p_warnings p1 = p_warnings p" "p_nodes p1 = p_nodes p"
      "p_self_recover p1 = p_self_recover p"
    by blast
  have m: "match p NEWLINE False = Inr (fst t = NEWLINE, p1)"
    using match_peeked(1) [OF pk] .
  show ?case
  proof (cases "fst t = NEWLINE")
    case True
    then have "recover_loop p = Inr p1"
      using m by (subst recover_loop.simps) simp
    then show ?thesis
      using True pd p1 lp keep by simp
  next
    case False
    let ?p2 = "p1\<lparr>p_last_peek := None\<rparr>"
    have a: "advance p1 = Inr (t, ?p2)"
      using advance_cached [OF lp] .
    have r: "recover_loop p = recover_loop ?p2"
      using m False a by (subst recover_loop.simps) simp
    have ex: "list_ex (\<lambda>x. fst x = NEWLINE) (pending ?p2)"
      using Cons.prems pd False p2 by simp
    from Cons.hyps(1) [OF p2 [symmetric] ex] obtain p' where
      "recover_loop ?p2 = Inr p'"
      "pending p' = dropWhile (\<lambda>x. fst x \<noteq> NEWLINE) (pending ?p2)"
      "p_last_peek p' = Some (hd (pending p'))"
      "p_warnings p' = p_warnings ?p2" "p_nodes p' = p_nodes ?p2"
      "p_self_recover p' = p_self_recover ?p2"
      by blast
    then show ?thesis
      using r pd p2 False keep by simp
  qed
qed

lemma advance_warnings_update:
  "advance (p\<lparr>p_warnings := w\<rparr>)
     = (case advance p of Inl e \<Rightarrow> Inl e | Inr (t, q) \<Rightarrow> Inr (t, q\<lparr>p_warnings := w\<rparr>))"
  by (auto simp: advance_def next_token_def split: option.splits sum.splits)

lemma pending_warnings_update: "pending (p\<lparr>p_warnings := w\<rparr>) = pending p"
proof (induction p rule: pending.induct)
  case (1 p)
  show ?case
  proof (cases "advance p")
    case (Inl e)
    then show ?thesis
      by (subst pending.simps, subst (2) pending.simps) (simp add: advance_warnings_update)
  next
    case (Inr tq)
    obtain t q where tq: "tq = (t, q)" by (cases tq)
    have "pending (q\<lparr>p_warnings := w\<rparr>) = pending q"
      using "1.IH" [OF Inr tq [symmetric]] by simp
    then show ?thesis
      using Inr tq
      by (subst pending.simps, subst (2) pending.simps) (simp add: advance_warnings_update)
  qed
qed

lemma sample_parser_sel [simp]:
  "p_lexer (sample_parser lx ex pk n ws) = lx" "p_exhausted (sample_parser lx ex pk n ws) = ex"
  "p_last_peek (sample_parser lx ex pk n ws) = pk" "p_self_recover (sample_parser lx ex pk n ws)"
  "p_nodes (sample_parser lx ex pk n ws) = n" "p_warnings (sample_parser lx ex pk n ws) = ws"
  by (simp_all add: sample_parser_def)

lemma sample_parser_upd [simp]:
  "(sample_parser lx ex pk n ws)\<lparr>p_last_peek := x\<rparr> = sample_parser lx ex x n ws"
  "(sample_parser lx ex pk n ws)\<lparr>p_nodes := m\<rparr> = sample_parser lx ex pk m ws"
  "(sample_parser lx ex pk n ws)\<lparr>p_warnings := w\<rparr> = sample_parser lx ex pk n w"
  "(sample_parser lx ex pk n ws)\<lparr>p_lexer := lx', p_exhausted := ex', p_last_peek := x\<rparr>
     = sample_parser lx' ex' x n ws"
  "(sample_parser lx ex pk n ws)\<lparr>p_lexer := lx', p_exhausted := ex'\<rparr>
     = sample_parser lx' ex' pk n ws"
  by (simp_all add: sample_parser_def)

lemma sample_lexer_sel [simp]:
  "leftover (sample_lexer rest ln col) = rest" "line (sample_lexer rest ln col) = ln"
  "column (sample_lexer rest ln col) = col"
  by (simp_all add: sample_lexer_def)

lemma advance_fresh:
  assumes "p_last_peek p = None" and "\<not> p_exhausted p" and "lex_step (p_lexer p) = Inr (t, l1)"
  shows "advance p = Inr (t, p\<lparr>p_lexer := l1, p_exhausted := (fst t = EOF)\<rparr>)"
  using assms by (simp add: advance_def next_token_def)

lemma word_x: "word ''x''" "word ''a''" "word ''b''"
  by (simp_all add: word_def word_char_def is_valid_symbol_def isprintable_def printable_char_def)

lemma lex_x_newline:
  "lex_step (sample_lexer (''x'' @ [NL]) 1 1) = Inr ((STRING, Some ''x''), sample_lexer [NL] 1 2)"
  "lex_step (sample_lexer [NL] 1 2) = Inr ((NEWLINE, Some [NL]), sample_lexer [] 2 1)"
  "lex_step (sample_lexer [] 2 1) = Inr ((EOF, None), sample_lexer [] 2 1)"
proof -
  show "lex_step (sample_lexer (''x'' @ [NL]) 1 1) = Inr ((STRING, Some ''x''), sample_lexer [NL] 1 2)"
    using lex_step_word [OF word_x(1), of "[NL]" "sample_lexer [] 1 1"]
    by (simp add: sample_lexer_def)
  show "lex_step (sample_lexer [NL] 1 2) = Inr ((NEWLINE, Some [NL]), sample_lexer [] 2 1)"
    using lex_step_newline [of "sample_lexer [NL] 1 2" "[]"] by (simp add: sample_lexer_def)
  show "lex_step (sample_lexer [] 2 1) = Inr ((EOF, None), sample_lexer [] 2 1)"
    by (simp add: lex_step_eof)
qed

lemma pending_x_newline:
  "pending (sample_parser (sample_lexer (''x'' @ [NL]) 1 1) False None [[]] [])
     = [(STRING, Some ''x''), (NEWLINE, Some [NL]), (EOF, None)]"
proof -
  let ?P = "\<lambda>lx ex. sample_parser lx ex None [[]] []"
  have a1: "advance (?P (sample_lexer (''x'' @ [NL]) 1 1) False)
              = Inr ((STRING, Some ''x''), ?P (sample_lexer [NL] 1 2) False)"
    using advance_fresh [of "?P (sample_lexer (''x'' @ [NL]) 1 1) False" "(STRING, Some ''x'')"
        "sample_lexer [NL] 1 2"] lex_x_newline(1) by simp
  have a2: "advance (?P (sample_lexer [NL] 1 2) False)
              = Inr ((NEWLINE, Some [NL]), ?P (sample_lexer [] 2 1) False)"
    using advance_fresh [of "?P (sample_lexer [NL] 1 2) False" "(NEWLINE, Some [NL])"
        "sample_lexer [] 2 1"] lex_x_newline(2) by simp
  have a3: "advance (?P (sample_lexer [] 2 1) False)
              = Inr ((EOF, None), ?P (sample_lexer [] 2 1) True)"
    using advance_fresh [of "?P (sample_lexer [] 2 1) False" "(EOF, None)"
        "sample_lexer [] 2 1"] lex_x_newline(3) by simp
  have a4: "advance (?P (sample_lexer [] 2 1) True) = Inl StopIteration"
    by (simp add: advance_def next_token_def)
  have "pending (?P (sample_lexer [] 2 1) True) = []"
    using a4 pending.simps [of "?P (sample_lexer [] 2 1) True"] by simp
  then have "pending (?P (sample_lexer [] 2 1) False) = [(EOF, None)]"
    using pending_advance [OF a3] by simp
  then have "pending (?P (sample_lexer [NL] 1 2) False) = [(NEWLINE, Some [NL]), (EOF, None)]"
    using pending_advance [OF a2] by simp
  then show ?thesis
    using pending_advance [OF a1] by simp
qed

lemma expect_without_newline_raises:
  "expect (sample_parser (sample_lexer ''x'' 1 1) False None [[]] []) RBRACKET = Inl StopIteration"
proof -
  let ?w = "[RecoverUnexpected (STRING, Some ''x'') RBRACKET 1 2]"
  let ?q0 = "sample_parser (sample_lexer ''x'' 1 1) False None [[]] []"
  let ?q1 = "sample_parser (sample_lexer [] 1 2) False (Some (STRING, Some ''x'')) [[]] []"
  let ?q2 = "sample_parser (sample_lexer [] 1 2) False (Some (STRING, Some ''x'')) [[]] ?w"
  let ?q3 = "sample_parser (sample_lexer [] 1 2) False None [[]] ?w"
  let ?q4 = "sample_parser (sample_lexer [] 1 2) True (Some (EOF, None)) [[]] ?w"
  let ?q5 = "sample_parser (sample_lexer [] 1 2) True None [[]] ?w"
  have lx: "lex_step (sample_lexer ''x'' 1 1) = Inr ((STRING, Some ''x''), sample_lexer [] 1 2)"
    using lex_step_word [OF word_x(1), of "[]" "sample_lexer [] 1 1"]
    by (simp add: sample_lexer_def is_valid_symbol_Nil)
  have le: "lex_step (sample_lexer [] 1 2) = Inr ((EOF, None), sample_lexer [] 1 2)"
    by (simp add: lex_step_eof)
  have pk0: "peek ?q0 = Inr ((STRING, Some ''x''), ?q1)"
    using peek_fresh [of ?q0 "(STRING, Some ''x'')" "sample_lexer [] 1 2"] lx by simp
  have wr: "warn_recover ?q1 (STRING, Some ''x'') RBRACKET = ?q2"
    by (simp add: warn_recover_def)
  have pc2: "peek ?q2 = Inr ((STRING, Some ''x''), ?q2)"
    by (simp add: peek_cached)
  have m2: "match ?q2 NEWLINE False = Inr (False, ?q2)"
    using match_peeked(1) [OF pc2, of NEWLINE] by simp
  have a2: "advance ?q2 = Inr ((STRING, Some ''x''), ?q3)"
    using advance_cached [of ?q2 "(STRING, Some ''x'')"] by simp
  have pk3: "peek ?q3 = Inr ((EOF, None), ?q4)"
    using peek_fresh [of ?q3 "(EOF, None)" "sample_lexer [] 1 2"] le by simp
  have m3: "match ?q3 NEWLINE False = Inr (False, ?q4)"
    using match_peeked(1) [OF pk3, of NEWLINE] by simp
  have a4: "advance ?q4 = Inr ((EOF, None), ?q5)"
    using advance_cached [of ?q4 "(EOF, None)"] by simp
  have m5: "match ?q5 NEWLINE False = Inl StopIteration"
    by (simp add: match_def peek_def next_token_def)
  have "recover_loop ?q5 = Inl StopIteration"
    using m5 recover_loop.simps [of ?q5] by simp
  then have "recover_loop ?q3 = Inl StopIteration"
    using m3 a4 recover_loop.simps [of ?q3] by simp
  then have "recover_loop ?q2 = Inl StopIteration"
    using m2 a2 recover_loop.simps [of ?q2] by simp
  then show ?thesis
    using pk0 wr by (simp add: expect_def)
qed

lemma parse_without_final_newline_raises:
  "parse_text ''a b'' True = Inl StopIteration"
proof -
  let ?ta = "(STRING, Some ''a'')"
  let ?tb = "(STRING, Some ''b'')"
  let ?te = "(EOF, None)"
  let ?l0 = "sample_lexer ''a b'' 1 1"
  let ?l1 = "sample_lexer '' b'' 1 2"
  let ?l2 = "sample_lexer [] 1 4"
  let ?n1 = "[[(Some ''a'', Scalar (Some ''b''))]]"
  let ?w = "[RecoverUnexpected ?te NEWLINE 1 4]"
  let ?p0 = "sample_parser ?l0 False None [[]] []"
  let ?p1 = "sample_parser ?l1 False (Some ?ta) [[]] []"
  let ?p2 = "sample_parser ?l1 False None [[]] []"
  let ?p3 = "sample_parser ?l2 False (Some ?tb) [[]] []"
  let ?p4 = "sample_parser ?l2 False None [[]] []"
  let ?p5 = "sample_parser ?l2 True (Some ?te) [[]] []"
  let ?p6 = "sample_parser ?l2 True (Some ?te) ?n1 []"
  let ?p7 = "sample_parser ?l2 True (Some ?te) ?n1 ?w"
  let ?p8 = "sample_parser ?l2 True None ?n1 ?w"
  have init: "ValveKeyValueParser_init (\<lambda>pth. Inl FileNotFoundError) None (Some (''a b'', ''memory''))
                True = Inr ?p0"
    by (simp add: ValveKeyValueParser_init_def ValveKeyValueLexer_init_def sample_parser_def
          sample_lexer_def)
  have lex0: "lex_step ?l0 = Inr (?ta, ?l1)"
    using lex_step_word [OF word_x(2), of "'' b''" "sample_lexer [] 1 1"]
    by (simp add: sample_lexer_def)
  have lex1: "lex_step ?l1 = Inr (?tb, ?l2)"
    using lex_step_space [of ?l1 "''b''"]
      lex_step_word [OF word_x(3), of "[]" "sample_lexer [] 1 3"]
    by (simp add: sample_lexer_def is_valid_symbol_Nil)
  have lex2: "lex_step ?l2 = Inr (?te, ?l2)"
    by (simp add: lex_step_eof)
  have ne0: "leftover (p_lexer ?p0) \<noteq> []" by simp
  have pk0: "peek ?p0 = Inr (?ta, ?p1)"
    using peek_fresh [of ?p0 ?ta ?l1] lex0 by simp
  have sn0: "skip_newlines ?p0 = Inr ?p1"
    using skip_newlines_stop [OF pk0] by simp
  have pc1: "peek ?p1 = Inr (?ta, ?p1)" by (simp add: peek_cached)
  have m1: "match ?p1 STRING False = Inr (True, ?p1)"
    using match_peeked(1) [OF pc1, of STRING] by simp
  have a1: "advance ?p1 = Inr (?ta, ?p2)"
    using advance_cached [of ?p1 ?ta] by simp
  have pk2: "peek ?p2 = Inr (?tb, ?p3)"
    using peek_fresh [of ?p2 ?tb ?l2] lex1 by simp
  have sn2: "skip_newlines ?p2 = Inr ?p3"
    using skip_newlines_stop [OF pk2] by simp
  have pc3: "peek ?p3 = Inr (?tb, ?p3)" by (simp add: peek_cached)
  have m2: "match ?p3 LBRACE True = Inr (False, ?p3)"
    using match_peeked(2) [OF pc3, of LBRACE True] by simp
  have m3: "match ?p3 STRING False = Inr (True, ?p3)"
    using match_peeked(1) [OF pc3, of STRING] by simp
  have a3: "advance ?p3 = Inr (?tb, ?p4)"
    using advance_cached [of ?p3 ?tb] by simp
  have pk4: "peek ?p4 = Inr (?te, ?p5)"
    using peek_fresh [of ?p4 ?te ?l2] lex2 by simp
  have m4: "match ?p4 LBRACKET True = Inr (False, ?p5)"
    using match_peeked(2) [OF pk4, of LBRACKET True] by simp
  have st: "set_top [[]] [0] (Some ''a'') (Scalar (Some ''b'')) = Inr ?n1"
    by (simp add: set_top_def)
  have pc6: "peek ?p6 = Inr (?te, ?p6)" by (simp add: peek_cached)
  have wr: "warn_recover ?p6 ?te NEWLINE = ?p7"
    by (simp add: warn_recover_def)
  have pc7: "peek ?p7 = Inr (?te, ?p7)" by (simp add: peek_cached)
  have m7: "match ?p7 NEWLINE False = Inr (False, ?p7)"
    using match_peeked(1) [OF pc7, of NEWLINE] by simp
  have a7: "advance ?p7 = Inr (?te, ?p8)"
    using advance_cached [of ?p7 ?te] by simp
  have m8: "match ?p8 NEWLINE False = Inl StopIteration"
    by (simp add: match_def peek_def next_token_def)
  have "recover_loop ?p8 = Inl StopIteration"
    using m8 recover_loop.simps [of ?p8] by simp
  then have "recover_loop ?p7 = Inl StopIteration"
    using m7 a7 recover_loop.simps [of ?p7] by simp
  then have ex: "expect ?p6 NEWLINE = Inl StopIteration"
    using pc6 wr by (simp add: expect_def)
  have pak: "parse_after_key ?p3 [0] (Some ''a'') = Inl StopIteration"
    using m2 m3 a3 m4 st ex by (simp add: parse_after_key_def)
  have body: "parse_body ?p0 [0] = Inl StopIteration"
    using sn0 m1 a1 sn2 pak by (simp add: parse_body_def)
  have "parse_loop ?p0 [0] = Inl StopIteration"
    using ne0 body parse_loop.simps [of ?p0 "[0]"] by simp
  then show ?thesis
    using init by (simp add: parse_text_def parse_def)
qed

text \<open>
  C5, counterexample. The claim is that a failed \<open>expect\<close> in recovery mode discards the
  tokens up to and including the next newline, and that no document makes it raise. On
  the text of \<open>x\<close> and a newline, \<open>expect(RBRACKET)\<close> returns with the NEWLINE token as the
  lookahead, and the next \<open>advance\<close> delivers it; on the text \<open>x\<close> without a newline the
  recovery loop runs past EOF and \<open>expect\<close> raises StopIteration, and so does the parse
  of the document \<open>a b\<close> without a final newline.
\<close>

theorem expect_leaves_newline_counterexample:
  "expect (sample_parser (sample_lexer (''x'' @ [NL]) 1 1) False None [[]] []) RBRACKET
     = Inr (None, sample_parser (sample_lexer [] 2 1) False (Some (NEWLINE, Some [NL])) [[]]
                    [RecoverUnexpected (STRING, Some ''x'') RBRACKET 1 2])
   \<and> advance (sample_parser (sample_lexer [] 2 1) False (Some (NEWLINE, Some [NL])) [[]]
                    [RecoverUnexpected (STRING, Some ''x'') RBRACKET 1 2])
     = Inr ((NEWLINE, Some [NL]),
            sample_parser (sample_lexer [] 2 1) False None [[]]
                    [RecoverUnexpected (STRING, Some ''x'') RBRACKET 1 2])
   \<and> expect (sample_parser (sample_lexer ''x'' 1 1) False None [[]] []) RBRACKET
     = Inl StopIteration
   \<and> parse_text ''a b'' True = Inl StopIteration"
proof -
  let ?w = "[RecoverUnexpected (STRING, Some ''x'') RBRACKET 1 2]"
  let ?p0 = "sample_parser (sample_lexer (''x'' @ [NL]) 1 1) False None [[]] []"
  let ?p1 = "sample_parser (sample_lexer [NL] 1 2) False (Some (STRING, Some ''x'')) [[]] []"
  let ?p2 = "sample_parser (sample_lexer [NL] 1 2) False (Some (STRING, Some ''x'')) [[]] ?w"
  let ?p3 = "sample_parser (sample_lexer [NL] 1 2) False None [[]] ?w"
  let ?p4 = "sample_parser (sample_lexer [] 2 1) False (Some (NEWLINE, Some [NL])) [[]] ?w"
  have pk0: "peek ?p0 = Inr ((STRING, Some ''x''), ?p1)"
    using peek_fresh [of ?p0 "(STRING, Some ''x'')" "sample_lexer [NL] 1 2"] lex_x_newline(1)
    by simp
  have wr: "warn_recover ?p1 (STRING, Some ''x'') RBRACKET = ?p2"
    by (simp add: warn_recover_def)
  have pc2: "peek ?p2 = Inr ((STRING, Some ''x''), ?p2)"
    by (simp add: peek_cached)
  have m2: "match ?p2 NEWLINE False = Inr (False, ?p2)"
    using match_peeked(1) [OF pc2, of NEWLINE] by simp
  have a2: "advance ?p2 = Inr ((STRING, Some ''x''), ?p3)"
    using advance_cached [of ?p2 "(STRING, Some ''x'')"] by simp
  have pk3: "peek ?p3 = Inr ((NEWLINE, Some [NL]), ?p4)"
    using peek_fresh [of ?p3 "(NEWLINE, Some [NL])" "sample_lexer [] 2 1"] lex_x_newline(2)
    by simp
  have m3: "match ?p3 NEWLINE False = Inr (True, ?p4)"
    using match_peeked(1) [OF pk3, of NEWLINE] by simp
  have "recover_loop ?p3 = Inr ?p4"
    using m3 recover_loop.simps [of ?p3] by simp
  then have "recover_loop ?p2 = Inr ?p4"
    using m2 a2 recover_loop.simps [of ?p2] by simp
  then have "expect ?p0 RBRACKET = Inr (None, ?p4)"
    using pk0 wr by (simp add: expect_def)
  moreover have "advance ?p4
     = Inr ((NEWLINE, Some [NL]), sample_parser (sample_lexer [] 2 1) False None [[]] ?w)"
    using advance_cached [of ?p4 "(NEWLINE, Some [NL])"] by simp
  ultimately show ?thesis
    using expect_without_newline_raises parse_without_final_newline_raises by simp
qed

text \<open>
  C5, as amended. In recovery mode, when \<open>expect\<close> sees a token of another kind than the
  expected one and a NEWLINE token is among the tokens still to come, it emits one
  diagnostic and returns \<open>None\<close> without raising; the tokens before the first NEWLINE are
  discarded, the NEWLINE itself is not: it stays the lookahead token, first of the tokens
  still to come. The tree is not touched.
\<close>

theorem expect_recovers_up_to_next_newline:
  assumes "p_self_recover p" and "pending p = t # ts" and "fst t \<noteq> token_type"
    and "list_ex (\<lambda>x. fst x = NEWLINE) (t # ts)"
  shows "\<exists>p' ln cl. expect p token_type = Inr (None, p')
           \<and> pending p' = dropWhile (\<lambda>x. fst x \<noteq> NEWLINE) (t # ts)
           \<and> p_last_peek p' = Some (hd (pending p'))
           \<and> p_warnings p' = p_warnings p @ [RecoverUnexpected t token_type ln cl]
           \<and> p_nodes p' = p_nodes p"
proof -
  from pending_peek [OF assms(2)] obtain p1 where
    pk: "peek p = Inr (t, p1)" and p1: "pending p1 = t # ts"
    and keep: "p_warnings p1 = p_warnings p" "p_nodes p1 = p_nodes p"
      "p_self_recover p1 = p_self_recover p"
    by blast
  let ?w = "warn_recover p1 t token_type"
  have pw: "pending ?w = t # ts"
    using p1 by (simp add: warn_recover_def pending_warnings_update)
  from recover_loop_pending [of ?w] assms(4) pw obtain p' where
    r: "recover_loop ?w = Inr p'"
    and "pending p' = dropWhile (\<lambda>x. fst x \<noteq> NEWLINE) (pending ?w)"
    and "p_last_peek p' = Some (hd (pending p'))"
    and "p_warnings p' = p_warnings ?w" and "p_nodes p' = p_nodes ?w"
    by auto
  moreover have "expect p token_type = Inr (None, p')"
    using pk assms(1,3) keep r by (cases t) (simp add: expect_def)
  ultimately show ?thesis
    using pw keep by (simp add: warn_recover_def)
qed

text \<open>Witness for C5: the text of \<open>x\<close> and a newline, with a closing bracket expected.\<close>

theorem expect_recovers_up_to_next_newline_witness:
  "p_self_recover (sample_parser (sample_lexer (''x'' @ [NL]) 1 1) False None [[]] [])
   \<and> pending (sample_parser (sample_lexer (''x'' @ [NL]) 1 1) False None [[]] [])
       = [(STRING, Some ''x''), (NEWLINE, Some [NL]), (EOF, None)]
   \<and> (\<exists>p' ln cl.
         expect (sample_parser (sample_lexer (''x'' @ [NL]) 1 1) False None [[]] []) RBRACKET
           = Inr (None, p')
         \<and> pending p' = [(NEWLINE, Some [NL]), (EOF, None)]
         \<and> p_last_peek p' = Some (NEWLINE, Some [NL])
         \<and> p_warnings p' = [RecoverUnexpected (STRING, Some ''x'') RBRACKET ln cl])"
  using expect_recovers_up_to_next_newline
    [of "sample_parser (sample_lexer (''x'' @ [NL]) 1 1) False None [[]] []"
        "(STRING, Some ''x'')" "[(NEWLINE, Some [NL]), (EOF, None)]" RBRACKET]
    pending_x_newline
  by auto

subsection \<open>Statements in terms of the tokens still to come\<close>































end
